theory Spec2Isabelle
  imports Main "HOL-Library.Char_ord" "HOL-Library.List_Lexorder"
begin

section \<open>Script-scoped cache (src/modules/utils/getCache.js)\<close>

text \<open>
  The module keeps two module-level variables: \<open>CACHE\<close>, a reference to a plain object
  used as a string-keyed mapping, and \<open>RELEVANT_SCRIPT_HASH\<close>. The claims speak about
  reference identity of the mapping object, so objects live in an explicit store: an
  object reference is an address, \<open>objects\<close> maps every allocated address to the
  mapping stored there, and the object literal \<open>{}\<close> allocates the next free address.
\<close>

type_synonym ref = nat

text \<open>The values a caller can pass as script hash: \<open>null\<close>, \<open>undefined\<close> or a string.\<close>

datatype hash_arg = Null | Undefined | Str string

record 'v cache_state =
  objects :: "ref \<Rightarrow> (string \<rightharpoonup> 'v) option"
  next_ref :: ref
  CACHE :: ref
  RELEVANT_SCRIPT_HASH :: hash_arg

text \<open>Evaluation of the object literal \<open>{}\<close>: a new, empty object at a fresh address.\<close>

definition new_object :: "'v cache_state \<Rightarrow> ref \<times> 'v cache_state" where
  "new_object s =
     (next_ref s,
      s\<lparr>objects := (objects s)(next_ref s \<mapsto> Map.empty), next_ref := Suc (next_ref s)\<rparr>)"

text \<open>The state after the module is loaded: \<open>let CACHE = {}; let RELEVANT_SCRIPT_HASH = null\<close>.\<close>

definition initial_cache :: "'v cache_state" where
  "initial_cache =
     \<lparr>objects = (\<lambda>_. None)(0 \<mapsto> Map.empty), next_ref = 1, CACHE = 0,
      RELEVANT_SCRIPT_HASH = Null\<rparr>"

text \<open>\<open>currentScriptHash ?? 'no-hash'\<close>\<close>

fun nullish_no_hash :: "hash_arg \<Rightarrow> hash_arg" where
  "nullish_no_hash Null = Str ''no-hash''"
| "nullish_no_hash Undefined = Str ''no-hash''"
| "nullish_no_hash (Str h) = Str h"

text \<open>\<open>getCache(currentScriptHash)\<close>: returns the reference held by \<open>CACHE\<close> and the new state.\<close>

definition getCache :: "hash_arg \<Rightarrow> 'v cache_state \<Rightarrow> ref \<times> 'v cache_state" where
  "getCache currentScriptHash s =
     (let scriptHash = nullish_no_hash currentScriptHash in
      if scriptHash \<noteq> RELEVANT_SCRIPT_HASH s
      then (let (r, s') = new_object (s\<lparr>RELEVANT_SCRIPT_HASH := scriptHash\<rparr>)
            in (r, s'\<lparr>CACHE := r\<rparr>))
      else (CACHE s, s))"

text \<open>\<open>getCache.flush()\<close>: \<open>CACHE = {}\<close>, the script hash is left as it is.\<close>

definition flush :: "'v cache_state \<Rightarrow> 'v cache_state" where
  "flush s = (let (r, s') = new_object s in s'\<lparr>CACHE := r\<rparr>)"

text \<open>What a holder of a reference does with it: \<open>cache[k] = v\<close> and \<open>cache[k]\<close>.\<close>

definition obj_set :: "ref \<Rightarrow> string \<Rightarrow> 'v \<Rightarrow> 'v cache_state \<Rightarrow> 'v cache_state" where
  "obj_set r k v s =
     (case objects s r of
        None \<Rightarrow> s
      | Some m \<Rightarrow> s\<lparr>objects := (objects s)(r \<mapsto> m(k \<mapsto> v))\<rparr>)"

definition obj_get :: "ref \<Rightarrow> string \<Rightarrow> 'v cache_state \<Rightarrow> 'v option" where
  "obj_get r k s = (case objects s r of None \<Rightarrow> None | Some m \<Rightarrow> m k)"

text \<open>The entries of the object behind a reference (\<open>None\<close> for an unallocated address).\<close>

definition entries :: "ref \<Rightarrow> 'v cache_state \<Rightarrow> (string \<rightharpoonup> 'v) option" where
  "entries r s = objects s r"

text \<open>
  Every address in use is below the allocation counter: the invariant that makes a newly
  allocated object different from all existing ones.
\<close>

definition cache_wf :: "'v cache_state \<Rightarrow> bool" where
  "cache_wf s \<longleftrightarrow> CACHE s < next_ref s \<and> objects s (CACHE s) \<noteq> None
                 \<and> (\<forall>r. next_ref s \<le> r \<longrightarrow> objects s r = None)"

text \<open>
  What can happen to the cache between two calls: a call of \<open>getCache\<close>, a write
  through a handle, a call of \<open>flush\<close>.
\<close>

datatype 'v cache_op = Get hash_arg | Put ref string 'v | Flush

fun apply_op :: "'v cache_op \<Rightarrow> 'v cache_state \<Rightarrow> 'v cache_state" where
  "apply_op (Get a) s = snd (getCache a s)"
| "apply_op (Put r k v) s = obj_set r k v s"
| "apply_op Flush s = flush s"

text \<open>
  The operations that are neither a call under another identity than \<open>a\<close> nor a flush.
\<close>

fun keeps_mapping :: "hash_arg \<Rightarrow> 'v cache_op \<Rightarrow> bool" where
  "keeps_mapping a (Get b) = (nullish_no_hash b = nullish_no_hash a)"
| "keeps_mapping a (Put r k v) = True"
| "keeps_mapping a Flush = False"

section \<open>Syntax nodes\<close>

text \<open>
  A syntax node as the flat-AST library hands it to this code. A node owns its
  \<open>childNodes\<close> (a tree: every node has one parent and the children never change), so
  they are part of the datatype. Every other link of a node (\<open>parentNode\<close>,
  \<open>declNode\<close>, \<open>references\<close>, \<open>id\<close>, \<open>property\<close>, \<open>scope.block\<close>,
  \<open>scope.through[j].identifier\<close>) is a non-owning reference to another node of the same
  flat AST; it is stored as the index of that node in the flat AST array and is followed
  with \<open>deref\<close>. \<open>parentNode\<close> and \<open>parentKey\<close> are set together, so they form one
  optional pair. Node identity is equality of node values: in a flat AST the
  \<open>nodeId\<close> is unique.
\<close>

record attrs =
  type :: string
  nodeId :: nat
  isMarked :: bool
  src :: string
  range_of :: "nat \<times> nat"
  scriptHash :: hash_arg
  parent :: "(nat \<times> string) option"
  declNode :: "nat option"
  references :: "nat list option"
  id_of :: "nat option"
  property :: "nat option"
  name :: "string option"
  value_of :: "string option"
  scope_block :: "nat option"
  scope_through :: "nat list"

datatype node = Node (attrs: attrs) (childNodes: "node list")

section \<open>doesDescendantMatchCondition\<close>

text \<open>The function returns \<open>false\<close>, \<open>true\<close> or, with \<open>returnNode\<close>, the matching node.\<close>

datatype match_result = RFalse | RTrue | RNode node

text \<open>
  The \<open>while (stack.length)\<close> loop. The JavaScript array is used as a stack whose top is
  its last element; here the top is the head of the list. Pushing the children from the
  last to the first leaves the first child on top, which is \<open>childNodes currentNode @ stack\<close>.
\<close>

function ddmc_loop :: "(node \<Rightarrow> bool) \<Rightarrow> bool \<Rightarrow> node list \<Rightarrow> match_result" where
  "ddmc_loop condition returnNode [] = RFalse"
| "ddmc_loop condition returnNode (currentNode # stack) =
     (if condition currentNode
      then (if returnNode then RNode currentNode else RTrue)
      else ddmc_loop condition returnNode (childNodes currentNode @ stack))"
  by pat_completeness auto
termination
proof (relation "measure (\<lambda>(c, r, stack). size_list size stack)")
  fix condition :: "node \<Rightarrow> bool" and returnNode :: bool and currentNode :: node
    and stack :: "node list"
  have "size_list size (childNodes currentNode) < size currentNode"
    by (cases currentNode) simp
  then show "((condition, returnNode, childNodes currentNode @ stack),
              (condition, returnNode, currentNode # stack))
             \<in> measure (\<lambda>(c, r, stack). size_list size stack)"
    by simp
qed simp

text \<open>
  \<open>doesDescendantMatchCondition(targetNode, condition, returnNode = false)\<close>. A missing
  (\<open>null\<close>/\<open>undefined\<close>) target and a condition that is not a function are \<open>None\<close>.
\<close>

definition doesDescendantMatchCondition ::
  "node option \<Rightarrow> (node \<Rightarrow> bool) option \<Rightarrow> bool \<Rightarrow> match_result" where
  "doesDescendantMatchCondition targetNode condition returnNode =
     (case (targetNode, condition) of
        (Some n, Some c) \<Rightarrow> ddmc_loop c returnNode [n]
      | _ \<Rightarrow> RFalse)"

text \<open>The node itself and all its descendants, in the order the loop visits them.\<close>

fun subnodes :: "node \<Rightarrow> node list" where
  "subnodes (Node a cs) = Node a cs # concat (map subnodes cs)"

section \<open>Values and createNewNode (src/modules/utils/createNewNode.js)\<close>

text \<open>
  A JavaScript number is kept as what \<open>createNewNode\<close> reads of it: \<open>String(value)\<close>
  and whether it is negative zero (\<open>String(-0)\<close> is \<open>"0"\<close>).
\<close>

datatype jsnum = NegZero | Num string

datatype prim = PString string | PNumber jsnum | PBoolean bool

text \<open>
  The values by their \<open>getObjType\<close> tag. \<open>VNode\<close> is an object tagged \<open>Node\<close>,
  \<open>VFunction\<close> a function or class with the text \<open>value.toString()\<close> returns,
  \<open>VOther\<close> any other tag (\<open>Date\<close>, \<open>Map\<close>, \<open>Promise\<close>, ...). An object is the list of
  its \<open>Object.entries\<close>.
\<close>

datatype jsval =
    VNode string
  | VPrim prim
  | VArray "jsval list"
  | VObject "(string \<times> jsval) list"
  | VUndefined
  | VNull
  | VBigInt int
  | VSymbol "string option"
  | VFunction string
  | VRegExp string string
  | VOther string

text \<open>
  The result: the sentinel \<open>BAD_VALUE\<close> or a node. Child positions hold results again,
  so a node with the sentinel inside can be written down and has to be ruled out.
  \<open>ObjectExpression\<close> lists the \<open>key\<close> and \<open>value\<close> of its \<open>Property\<close> nodes,
  \<open>Parsed\<close> is the first statement the parser returned for a function's text.
\<close>

datatype estree =
    BAD_VALUE
  | Existing string
  | Literal prim string
  | NullLiteral
  | BigIntLiteral int string string
  | RegexLiteral string string
  | Identifier string
  | UnaryExpression string estree
  | ArrayExpression "estree list"
  | ObjectExpression "(estree \<times> estree) list"
  | CallExpression estree "estree list"
  | Parsed string

text \<open>\<open>parseCode\<close> belongs to the parser library: it throws or returns a program.\<close>

datatype parse_outcome = ParseError | Program "string list"

fun String :: "prim \<Rightarrow> string" where
  "String (PString s) = s"
| "String (PNumber NegZero) = ''0''"
| "String (PNumber (Num s)) = s"
| "String (PBoolean b) = (if b then ''true'' else ''false'')"

text \<open>White space as \<open>parseInt\<close> and \<open>\s\<close> see it, for code units below 256.\<close>

definition is_space :: "char \<Rightarrow> bool" where
  "is_space c \<longleftrightarrow>
     c \<in> set [CHR 0x09, CHR 0x0A, CHR 0x0B, CHR 0x0C, CHR 0x0D, CHR 0x20, CHR 0xA0]"

definition is_digit :: "char \<Rightarrow> bool" where
  "is_digit c \<longleftrightarrow> c \<in> set ''0123456789''"

definition is_hex_digit :: "char \<Rightarrow> bool" where
  "is_hex_digit c \<longleftrightarrow> c \<in> set ''0123456789abcdefABCDEF''"

text \<open>
  \<open>isNaN(parseInt(inputString))\<close>: leading white space and one sign are skipped, a
  \<open>0x\<close> prefix selects radix 16, and the result is \<open>NaN\<close> exactly when no digit follows.
\<close>

definition parseInt_isNaN :: "string \<Rightarrow> bool" where
  "parseInt_isNaN inputString =
     (let S = dropWhile is_space inputString;
          S = (if S \<noteq> [] \<and> hd S \<in> set ''+-'' then tl S else S)
      in if take 2 S = ''0x'' \<or> take 2 S = ''0X''
         then (drop 2 S = [] \<or> \<not> is_hex_digit (hd (drop 2 S)))
         else (S = [] \<or> \<not> is_digit (hd S)))"

text \<open>Decimal digits of a number, as \<open>toString()\<close> and template literals print them.\<close>

function show_nat :: "nat \<Rightarrow> string" where
  "show_nat n = (if n < 10 then [''0123456789'' ! n]
                 else show_nat (n div 10) @ [''0123456789'' ! (n mod 10)])"
  by pat_completeness auto
termination by (relation "measure id") auto

definition show_int :: "int \<Rightarrow> string" where
  "show_int i = (if i < 0 then CHR ''-'' # show_nat (nat (- i)) else show_nat (nat i))"

fun psize :: "prim \<Rightarrow> nat" where
  "psize (PNumber NegZero) = 2"
| "psize p = length (String p)"

fun vsize :: "jsval \<Rightarrow> nat" where
  "vsize (VPrim p) = psize p"
| "vsize (VArray xs) = Suc (sum_list (map vsize xs))"
| "vsize (VObject es) = Suc (sum_list (map (\<lambda>e. Suc (length (fst e) + vsize (snd e))) es))"
| "vsize (VSymbol (Some d)) = Suc (length d)"
| "vsize _ = 0"

lemma psize_String: "length (String v) \<le> psize v"
  by (cases v rule: psize.cases) auto

lemma vsize_elem: "x \<in> set xs \<Longrightarrow> vsize x < Suc (sum_list (map vsize xs))"
  by (induction xs) auto

lemma vsize_entry:
  "(k, x) \<in> set es \<Longrightarrow>
   length k + vsize x < sum_list (map (\<lambda>e. Suc (length (fst e) + vsize (snd e))) es)"
  by (induction es) auto

text \<open>
  \<open>createNewNode(value)\<close>. The function starts from \<open>newNode = BAD_VALUE\<close> and wraps the
  \<open>switch\<close> in \<open>try\<close>/\<open>catch\<close>: a \<open>throw\<close> inside leaves \<open>BAD_VALUE\<close>. The array and the
  object loops throw at the first element, key or value whose conversion is
  \<open>BAD_VALUE\<close>; conversion has no effect besides its result, so the loops are the test
  whether any conversion is \<open>BAD_VALUE\<close>.
\<close>

function createNewNode :: "(string \<Rightarrow> parse_outcome) \<Rightarrow> jsval \<Rightarrow> estree" where
  "createNewNode parseCode (VNode n) = Existing n"
| "createNewNode parseCode (VPrim v) =
     (if String v \<noteq> [] \<and> hd (String v) \<in> set ''-+!'' \<and> length (String v) > 1
      then (if parseInt_isNaN (tl (String v)) \<and> tl (String v) \<notin> {''Infinity'', ''NaN''}
            then Literal v (String v)
            else UnaryExpression [hd (String v)]
                   (createNewNode parseCode (VPrim (PString (tl (String v))))))
      else if String v \<in> {''Infinity'', ''NaN''} then Identifier (String v)
      else if v = PNumber NegZero
      then UnaryExpression ''-'' (createNewNode parseCode (VPrim (PNumber (Num ''0''))))
      else Literal v (String v))"
| "createNewNode parseCode (VArray xs) =
     (if BAD_VALUE \<in> set (map (createNewNode parseCode) xs) then BAD_VALUE
      else ArrayExpression (map (createNewNode parseCode) xs))"
| "createNewNode parseCode (VObject es) =
     (if \<exists>e \<in> set es. createNewNode parseCode (VPrim (PString (fst e))) = BAD_VALUE
                        \<or> createNewNode parseCode (snd e) = BAD_VALUE
      then BAD_VALUE
      else ObjectExpression
             (map (\<lambda>e. (createNewNode parseCode (VPrim (PString (fst e))),
                         createNewNode parseCode (snd e))) es))"
| "createNewNode parseCode VUndefined = Identifier ''undefined''"
| "createNewNode parseCode VNull = NullLiteral"
| "createNewNode parseCode (VBigInt i) = BigIntLiteral i (show_int i @ ''n'') (show_int i)"
| "createNewNode parseCode (VSymbol d) =
     (case d of
        Some symbolDesc \<Rightarrow>
          (if symbolDesc \<noteq> []
           then CallExpression (Identifier ''Symbol'')
                  [createNewNode parseCode (VPrim (PString symbolDesc))]
           else CallExpression (Identifier ''Symbol'') [])
      | None \<Rightarrow> CallExpression (Identifier ''Symbol'') [])"
| "createNewNode parseCode (VFunction s) =
     (case parseCode s of
        Program (stmt # _) \<Rightarrow> Parsed stmt
      | _ \<Rightarrow> BAD_VALUE)"
| "createNewNode parseCode (VRegExp pattern flags) = RegexLiteral pattern flags"
| "createNewNode parseCode (VOther t) = BAD_VALUE"
  by pat_completeness auto
termination
proof (relation "measure (\<lambda>(p, v). vsize v)", goal_cases)
  case (2 parseCode v)
  then show ?case using psize_String[of v] by auto
next
  case (3 parseCode v)
  then show ?case by auto
next
  case (4 parseCode xs x)
  then show ?case by (auto simp: vsize_elem)
next
  case (5 parseCode xs x)
  then show ?case by (auto simp: vsize_elem)
next
  case (6 parseCode es e)
  then show ?case using vsize_entry[of "fst e" "snd e" es] by auto
next
  case (7 parseCode es e)
  then show ?case using vsize_entry[of "fst e" "snd e" es] by auto
next
  case (8 parseCode es e)
  then show ?case using vsize_entry[of "fst e" "snd e" es] by auto
next
  case (9 parseCode es e)
  then show ?case using vsize_entry[of "fst e" "snd e" es] by auto
qed auto

lemmas createNewNode_VArray = createNewNode.simps(3)
lemmas createNewNode_VObject = createNewNode.simps(4)
declare createNewNode.simps [simp del]

text \<open>A result is clean when the sentinel occurs nowhere in it.\<close>

fun clean :: "estree \<Rightarrow> bool" where
  "clean BAD_VALUE = False"
| "clean (UnaryExpression operator argument) = clean argument"
| "clean (ArrayExpression elements) = list_all clean elements"
| "clean (ObjectExpression properties) =
     list_all (\<lambda>p. clean (fst p) \<and> clean (snd p)) properties"
| "clean (CallExpression callee arguments) = (clean callee \<and> list_all clean arguments)"
| "clean _ = True"

text \<open>
  The value itself and everything nested in it at any depth: the elements of arrays, and
  the keys (as strings) and property values of objects.
\<close>

fun nested :: "jsval \<Rightarrow> jsval list" where
  "nested (VArray xs) = VArray xs # concat (map nested xs)"
| "nested (VObject es) =
     VObject es # concat (map (\<lambda>e. VPrim (PString (fst e)) # nested (snd e)) es)"
| "nested v = [v]"

section \<open>evalInVm (src/modules/utils/evalInVm.js) and Sandbox.run\<close>

definition dq :: char where "dq = CHR 0x22"
definition sq :: char where "sq = CHR 0x27"
definition nl :: char where "nl = CHR 0x0A"

text \<open>
  The three \<open>TRAP_STRINGS\<close> patterns, each as a matcher that returns the rest of the text
  after a match at its start. All three carry the flags \<open>gi\<close>. None of them needs
  backtracking: what follows a \<open>\s*\<close> or \<open>[0-9]*\<close> never starts with a space or a digit,
  and a text on which \<open>true\<close> matches does not start with a digit.
\<close>

definition to_lower :: "char \<Rightarrow> char" where
  "to_lower c =
     (case map_of (zip ''ABCDEFGHIJKLMNOPQRSTUVWXYZ'' ''abcdefghijklmnopqrstuvwxyz'') c of
        Some l \<Rightarrow> l | None \<Rightarrow> c)"

fun match_ci :: "string \<Rightarrow> string \<Rightarrow> string option" where
  "match_ci [] s = Some s"
| "match_ci (p # ps) [] = None"
| "match_ci (p # ps) (c # cs) = (if to_lower c = p then match_ci ps cs else None)"

definition match_quote :: "string \<Rightarrow> string option" where
  "match_quote s =
     (case s of c # cs \<Rightarrow> if c = dq \<or> c = sq then Some cs else None | [] \<Rightarrow> None)"

definition match_number :: "string \<Rightarrow> string option" where
  "match_number s =
     (case s of
        c # cs \<Rightarrow> if c \<in> set ''123456789'' then Some (dropWhile is_digit cs) else None
      | [] \<Rightarrow> None)"

definition match_true_or_number :: "string \<Rightarrow> string option" where
  "match_true_or_number s =
     (case match_ci ''true'' s of Some r \<Rightarrow> Some r | None \<Rightarrow> match_number s)"

text \<open>\<open>/while\s*\(\s*(true|[1-9][0-9]*)\s*\)\s*\{\s*}/gi\<close>\<close>

definition while_trap :: "string \<Rightarrow> string option" where
  "while_trap s =
     Option.bind (match_ci ''while'' s) (\<lambda>r.
     Option.bind (match_ci ''('' (dropWhile is_space r)) (\<lambda>r.
     Option.bind (match_true_or_number (dropWhile is_space r)) (\<lambda>r.
     Option.bind (match_ci '')'' (dropWhile is_space r)) (\<lambda>r.
     Option.bind (match_ci ''{'' (dropWhile is_space r)) (\<lambda>r.
     match_ci ''}'' (dropWhile is_space r))))))"

text \<open>\<open>/debugger/gi\<close>\<close>

definition debugger_trap :: "string \<Rightarrow> string option" where
  "debugger_trap s = match_ci ''debugger'' s"

text \<open>\<open>/["']debu["']\s*\+\s*["']gger["']/gi\<close>\<close>

definition split_debugger_trap :: "string \<Rightarrow> string option" where
  "split_debugger_trap s =
     Option.bind (match_quote s) (\<lambda>r.
     Option.bind (match_ci ''debu'' r) (\<lambda>r.
     Option.bind (match_quote r) (\<lambda>r.
     Option.bind (match_ci ''+'' (dropWhile is_space r)) (\<lambda>r.
     Option.bind (match_quote (dropWhile is_space r)) (\<lambda>r.
     Option.bind (match_ci ''gger'' r) (\<lambda>r.
     match_quote r))))))"

text \<open>
  \<open>text.replace(trap, replaceWith)\<close> for a global pattern: every match, from left to
  right, is replaced and matching goes on behind it. A match that consumes nothing is
  followed by the next character unchanged. The replacement texts contain no \<open>$\<close>.
\<close>

fun replace_global :: "(string \<Rightarrow> string option) \<Rightarrow> string \<Rightarrow> string \<Rightarrow> string" where
  "replace_global trap replaceWith [] =
     (case trap [] of Some r \<Rightarrow> replaceWith | None \<Rightarrow> [])"
| "replace_global trap replaceWith (c # cs) =
     (case trap (c # cs) of
        None \<Rightarrow> c # replace_global trap replaceWith cs
      | Some r \<Rightarrow>
          (if length r \<le> length cs
           then replaceWith @ replace_global trap replaceWith (drop (length cs - length r) cs)
           else replaceWith @ c # replace_global trap replaceWith cs))"

definition TRAP_STRINGS :: "((string \<Rightarrow> string option) \<times> string) list" where
  "TRAP_STRINGS =
     [(while_trap, ''while (0) {}''),
      (debugger_trap, dq # ''debugge_'' @ [dq]),
      (split_debugger_trap, dq # ''debu'' @ [dq] @ '' + '' @ [dq] @ ''gge_'' @ [dq])]"

text \<open>The loop over \<open>TRAP_STRINGS\<close> at the start of the \<open>try\<close> block.\<close>

definition neutralize :: "string \<Rightarrow> string" where
  "neutralize stringToEval =
     fold (\<lambda>ts s. replace_global (fst ts) (snd ts) s) TRAP_STRINGS stringToEval"

text \<open>
  The isolate is the host's engine, not code of this repository: compiling and running a
  script text in a context either throws (a syntax or runtime error, the timeout, the
  memory limit) or returns. What \<open>evalInVm\<close> reads of a returned reference is its
  \<open>getObjType\<close> tag and what \<open>copySync()\<close> gives (\<open>None\<close> when it throws).
\<close>

datatype vm_result = NonReference | Reference string "jsval option"

datatype run_outcome = Throws | Returned vm_result

type_synonym isolate = "string \<Rightarrow> run_outcome"

text \<open>\<open>Sandbox.run(code)\<close>\<close>

definition Sandbox_run :: "isolate \<Rightarrow> string \<Rightarrow> run_outcome" where
  "Sandbox_run vm code = vm (''delete Math.random; delete Date;'' @ [nl, nl] @ code)"

text \<open>
  What the host provides: the MD5 digest behind \<open>generateHash\<close>, the keys of the host's
  \<open>console\<close> object, the parser, and the isolate of a \<open>new Sandbox()\<close> (\<open>None\<close> when the
  constructor throws).
\<close>

record host =
  md5 :: "string \<Rightarrow> string"
  console_keys :: "string list"
  parseCode :: "string \<Rightarrow> parse_outcome"
  new_Sandbox :: "isolate option"

definition generateHash :: "host \<Rightarrow> string \<Rightarrow> string" where
  "generateHash h input = md5 h input"

definition BAD_TYPES :: "string list" where
  "BAD_TYPES = [''Promise'']"

definition MAX_CACHE_SIZE :: nat where
  "MAX_CACHE_SIZE = 100"

text \<open>
  What \<open>evalInVm\<close> stores and returns: a converted value (a node or \<open>BAD_VALUE\<close>), or,
  through the property read \<open>MATCHING_OBJECT_KEYS[objKeys]\<close>, a member that the object
  literal inherits from \<open>Object.prototype\<close>.
\<close>

datatype eval_result = Converted estree | Inherited string

definition Object_prototype_keys :: "string list" where
  "Object_prototype_keys =
     [''constructor'', ''__defineGetter__'', ''__defineSetter__'', ''hasOwnProperty'',
      ''__lookupGetter__'', ''__lookupSetter__'', ''isPrototypeOf'',
      ''propertyIsEnumerable'', ''toString'', ''valueOf'', ''__proto__'',
      ''toLocaleString'']"

text \<open>
  \<open>MATCHING_OBJECT_KEYS[objKeys]\<close>, \<open>None\<close> when the read is \<open>undefined\<close>. The object
  literal has two own computed keys, the joined sorted keys of \<open>console\<close> with and
  without the first one; a read of any other name goes on to \<open>Object.prototype\<close>, whose
  members are all truthy.
\<close>

definition MATCHING_OBJECT_KEYS :: "host \<Rightarrow> string \<Rightarrow> eval_result option" where
  "MATCHING_OBJECT_KEYS h objKeys =
     (if objKeys = concat (sort (console_keys h))
         \<or> objKeys = concat (drop 1 (sort (console_keys h)))
      then Some (Converted (Identifier ''console''))
      else if objKeys \<in> set Object_prototype_keys then Some (Inherited objKeys)
      else None)"

text \<open>
  \<open>Object.keys(res)\<close>: it throws on \<open>null\<close> and \<open>undefined\<close> (\<open>None\<close>); a string and an
  array have their indices, an object its own keys; the other values are taken to have
  no own enumerable property.
\<close>

fun Object_keys :: "jsval \<Rightarrow> string list option" where
  "Object_keys VUndefined = None"
| "Object_keys VNull = None"
| "Object_keys (VPrim (PString s)) = Some (map show_nat [0..<length s])"
| "Object_keys (VArray xs) = Some (map show_nat [0..<length xs])"
| "Object_keys (VObject es) = Some (map fst es)"
| "Object_keys v = Some []"

text \<open>An exception raised inside the \<open>try\<close> block.\<close>

datatype exception = Thrown

text \<open>
  The \<open>try\<close> block: \<open>Inl Thrown\<close> when it throws, otherwise what it assigns to
  \<open>CACHE[cacheName]\<close> (\<open>None\<close>: no assignment).
\<close>

definition try_block :: "host \<Rightarrow> string \<Rightarrow> isolate option \<Rightarrow> exception + eval_result option" where
  "try_block h stringToEval sb =
     (case (case sb of Some vm \<Rightarrow> Some vm | None \<Rightarrow> new_Sandbox h) of
        None \<Rightarrow> Inl Thrown
      | Some vm \<Rightarrow>
          (case Sandbox_run vm (neutralize stringToEval) of
             Throws \<Rightarrow> Inl Thrown
           | Returned NonReference \<Rightarrow> Inr None
           | Returned (Reference objType copy) \<Rightarrow>
               (if objType \<in> set BAD_TYPES then Inr None
                else (case copy of
                        None \<Rightarrow> Inl Thrown
                      | Some res \<Rightarrow>
                          (case Object_keys res of
                             None \<Rightarrow> Inl Thrown
                           | Some keys \<Rightarrow>
                               (case MATCHING_OBJECT_KEYS h (concat (sort keys)) of
                                  Some m \<Rightarrow> Inr (Some m)
                                | None \<Rightarrow>
                                    Inr (Some (Converted (createNewNode (parseCode h) res)))))))))"

text \<open>
  \<open>evalInVm(stringToEval, sb)\<close> with the module's \<open>CACHE\<close> passed in and out. On a miss
  the entry is first set to \<open>BAD_VALUE\<close>; the \<open>try\<close> block overwrites it or not, and
  \<open>catch\<close> does nothing. The entry is what is returned.
\<close>

definition evalInVm ::
  "host \<Rightarrow> string \<Rightarrow> isolate option \<Rightarrow> (string \<rightharpoonup> eval_result)
     \<Rightarrow> eval_result \<times> (string \<rightharpoonup> eval_result)" where
  "evalInVm h stringToEval sb cache =
     (let cacheName = ''eval-'' @ generateHash h stringToEval in
      case cache cacheName of
        Some cached \<Rightarrow> (cached, cache)
      | None \<Rightarrow>
          (let cache = (if MAX_CACHE_SIZE \<le> card (dom cache) then Map.empty else cache);
               entry = (case try_block h stringToEval sb of
                          Inr (Some r) \<Rightarrow> r
                        | _ \<Rightarrow> Converted BAD_VALUE)
           in (entry, cache(cacheName \<mapsto> entry))))"



section \<open>getDeclarationWithContext\<close>

definition IRRELEVANT_FILTER_TYPES :: "string list" where
  "IRRELEVANT_FILTER_TYPES = [''Literal'', ''Identifier'', ''MemberExpression'']"

definition TYPES_TO_COLLECT :: "string list" where
  "TYPES_TO_COLLECT = [''CallExpression'', ''ArrowFunctionExpression'', ''AssignmentExpression'',
     ''FunctionDeclaration'', ''FunctionExpression'', ''VariableDeclarator'']"

definition SKIP_TRAVERSAL_TYPES :: "string list" where
  "SKIP_TRAVERSAL_TYPES = [''Literal'', ''ThisExpression'']"

definition IF_STATEMENT_KEYS :: "string list" where
  "IF_STATEMENT_KEYS = [''consequent'', ''alternate'']"

definition STANDALONE_WRAPPER_TYPES :: "string list" where
  "STANDALONE_WRAPPER_TYPES = [''ExpressionStatement'', ''AssignmentExpression'', ''VariableDeclarator'']"

text \<open>
  Following a link. An index that is not in the flat AST denotes no node: a single link
  is then absent, and a list of links holds the nodes that exist.
\<close>

definition deref :: "node list \<Rightarrow> nat \<Rightarrow> node option" where
  "deref ast i = (if i < length ast then Some (ast ! i) else None)"

definition deref_all :: "node list \<Rightarrow> nat list \<Rightarrow> node list" where
  "deref_all ast is = List.map_filter (deref ast) is"

definition parentNode :: "node list \<Rightarrow> node \<Rightarrow> node option" where
  "parentNode ast n = (case parent (attrs n) of None \<Rightarrow> None | Some (i, k) \<Rightarrow> deref ast i)"

definition parentKey :: "node list \<Rightarrow> node \<Rightarrow> string" where
  "parentKey ast n =
     (case parent (attrs n) of
        None \<Rightarrow> []
      | Some (i, k) \<Rightarrow> (case deref ast i of None \<Rightarrow> [] | Some p \<Rightarrow> k))"

definition isConsequentOrAlternate :: "node list \<Rightarrow> node \<Rightarrow> bool" where
  "isConsequentOrAlternate ast targetNode =
     (case parentNode ast targetNode of
        None \<Rightarrow> False
      | Some p \<Rightarrow>
          type (attrs p) = ''IfStatement''
          \<or> parentKey ast targetNode \<in> set IF_STATEMENT_KEYS
          \<or> parentKey ast p \<in> set IF_STATEMENT_KEYS
          \<or> (case parentNode ast p of
                None \<Rightarrow> False
              | Some g \<Rightarrow> type (attrs g) = ''BlockStatement''
                          \<and> parentKey ast g \<in> set IF_STATEMENT_KEYS))"

text \<open>
  \<open>property?.value || property?.name\<close>, as far as it is a string: \<open>value_of\<close> is the
  value of a literal that is a non-empty string.
\<close>

definition propertyName :: "node \<Rightarrow> string option" where
  "propertyName prop =
     (case value_of (attrs prop) of
        Some v \<Rightarrow> if v \<noteq> [] then Some v else name (attrs prop)
      | None \<Rightarrow> name (attrs prop))"

definition isNodeAnAssignmentToProperty :: "string list \<Rightarrow> node list \<Rightarrow> node \<Rightarrow> bool" where
  "isNodeAnAssignmentToProperty PROPERTIES_THAT_MODIFY_CONTENT ast n =
     (case parentNode ast n of
        None \<Rightarrow> False
      | Some p \<Rightarrow>
          if type (attrs p) \<noteq> ''MemberExpression'' then False
          else if isConsequentOrAlternate ast p then False
          else if (case parentNode ast p of
                     None \<Rightarrow> False
                   | Some g \<Rightarrow> type (attrs g) = ''AssignmentExpression'')
                  \<and> parentKey ast p = ''left'' then True
          else if parentKey ast n = ''object''
          then (case Option.bind (property (attrs p)) (deref ast) of
                  None \<Rightarrow> False
                | Some prop \<Rightarrow>
                    if isMarked (attrs prop) then True
                    else (case propertyName prop of
                            None \<Rightarrow> False
                          | Some pn \<Rightarrow> pn \<noteq> [] \<and> pn \<in> set PROPERTIES_THAT_MODIFY_CONTENT))
          else False)"

definition removeRedundantNodes :: "node list \<Rightarrow> node list" where
  "removeRedundantNodes nodes =
     filter (\<lambda>targetNode.
        \<not> (\<exists>n \<in> set nodes. n \<noteq> targetNode
               \<and> fst (range_of (attrs n)) \<le> fst (range_of (attrs targetNode))
               \<and> snd (range_of (attrs n)) \<ge> snd (range_of (attrs targetNode)))) nodes"

text \<open>
  Modelled from the spec: \<open>isNodeInRanges\<close> (src/modules/utils/isNodeInRanges.js is not
  among the sources). A node is in the ranges when its source range is subsumed by one
  of them.
\<close>

definition isNodeInRanges :: "node \<Rightarrow> (nat \<times> nat) list \<Rightarrow> bool" where
  "isNodeInRanges targetNode ranges =
     (\<exists>r \<in> set ranges. fst r \<le> fst (range_of (attrs targetNode))
                        \<and> snd (range_of (attrs targetNode)) \<le> snd r)"

text \<open>
  How a call ends: it returns a value, it throws a \<open>TypeError\<close> (a property of
  \<open>null\<close> or \<open>undefined\<close> is read), or it does not return.
\<close>

datatype 'a outcome = Value 'a | TypeError | Loops

text \<open>
  The walk from an anonymous function expression up to its wrapper:
  \<open>while (targetParent.parentNode && !STANDALONE_WRAPPER_TYPES.includes(targetParent.type))\<close>.
  The walk takes one step per parent link. A chain of more links than the flat AST has
  nodes runs in a cycle, and the loop does not end.
\<close>

fun find_wrapper :: "node list \<Rightarrow> nat \<Rightarrow> node \<Rightarrow> node outcome" where
  "find_wrapper ast fuel targetParent =
     (case parentNode ast targetParent of
        None \<Rightarrow> Value targetParent
      | Some p \<Rightarrow>
          if type (attrs targetParent) \<in> set STANDALONE_WRAPPER_TYPES then Value targetParent
          else (case fuel of 0 \<Rightarrow> Loops | Suc k \<Rightarrow> find_wrapper ast k p))"

declare find_wrapper.simps [simp del]

text \<open>The nodes one reference \<open>ref\<close> of the identifier \<open>node\<close> adds to \<open>targetNodes\<close>.\<close>

definition ref_targets :: "string list \<Rightarrow> node list \<Rightarrow> node \<Rightarrow> node \<Rightarrow> node list outcome" where
  "ref_targets PROPS ast node ref =
     (let assignment_to_property =
            (if isNodeAnAssignmentToProperty PROPS ast ref
             then (case Option.bind (parentNode ast ref) (parentNode ast) of
                     None \<Rightarrow> TypeError
                   | Some g \<Rightarrow> Value [g])
             else Value [])
      in case parentNode ast ref of
           None \<Rightarrow> assignment_to_property
         | Some rp \<Rightarrow>
             if parentKey ast ref = ''arguments'' \<and> type (attrs rp) = ''CallExpression''
             then Value [rp]
             else if parentKey ast ref = ''left'' \<and> type (attrs rp) = ''AssignmentExpression''
             then (case parentNode ast node of
                     None \<Rightarrow> TypeError
                   | Some np \<Rightarrow>
                       if type (attrs np) \<noteq> ''FunctionDeclaration''
                          \<and> \<not> isConsequentOrAlternate ast ref
                       then Value [rp]
                       else assignment_to_property)
             else assignment_to_property)"

fun refs_targets :: "string list \<Rightarrow> node list \<Rightarrow> node \<Rightarrow> node list \<Rightarrow> node list outcome" where
  "refs_targets PROPS ast node [] = Value []"
| "refs_targets PROPS ast node (ref # refs) =
     (case ref_targets PROPS ast node ref of
        Value ts \<Rightarrow> (case refs_targets PROPS ast node refs of
                       Value us \<Rightarrow> Value (ts @ us)
                     | TypeError \<Rightarrow> TypeError
                     | Loops \<Rightarrow> Loops)
      | TypeError \<Rightarrow> TypeError
      | Loops \<Rightarrow> Loops)"

text \<open>The \<open>switch (node.type)\<close>: the nodes pushed to \<open>targetNodes\<close> after \<open>node\<close> itself.\<close>

definition relatives :: "string list \<Rightarrow> node list \<Rightarrow> node \<Rightarrow> node list outcome" where
  "relatives PROPS ast node =
     (if type (attrs node) = ''Identifier''
      then (let refs = (case references (attrs node) of None \<Rightarrow> [] | Some is \<Rightarrow> deref_all ast is);
                decl = (case Option.bind (Option.bind (declNode (attrs node)) (deref ast))
                               (parentNode ast) of
                          Some dp \<Rightarrow> [dp]
                        | None \<Rightarrow>
                            (case parentNode ast node of
                               Some p \<Rightarrow> if refs \<noteq> [] then [p] else []
                             | None \<Rightarrow> []))
            in case refs_targets PROPS ast node refs of
                 Value ts \<Rightarrow> Value (decl @ ts)
               | TypeError \<Rightarrow> TypeError
               | Loops \<Rightarrow> Loops)
      else if type (attrs node) = ''MemberExpression''
      then (case Option.bind (Option.bind (property (attrs node)) (deref ast))
                   (\<lambda>p. Option.bind (declNode (attrs p)) (deref ast)) of
              Some d \<Rightarrow> Value [d]
            | None \<Rightarrow> Value [])
      else if type (attrs node) = ''FunctionExpression''
      then (if id_of (attrs node) = None
            then (case find_wrapper ast (length ast) node of
                    Value targetParent \<Rightarrow>
                      if type (attrs targetParent) \<in> set STANDALONE_WRAPPER_TYPES
                      then Value [targetParent] else Value []
                  | TypeError \<Rightarrow> TypeError
                  | Loops \<Rightarrow> Loops)
            else Value [])
      else Value [])"

text \<open>The inner function \<open>addToStack\<close>, with the \<open>stack\<close> it pushes to passed in and out.\<close>

definition addToStack :: "node list \<Rightarrow> node list \<Rightarrow> node \<Rightarrow> node list" where
  "addToStack visitedNodes stack node =
     (if node \<in> set visitedNodes \<or> node \<in> set stack
         \<or> type (attrs node) \<in> set SKIP_TRAVERSAL_TYPES
      then stack else stack @ [node])"

text \<open>One round of \<open>for (let i = 0; i < targetNodes.length; i++)\<close>.\<close>

definition visit_target :: "node list \<Rightarrow> node list \<Rightarrow> node \<Rightarrow> node list \<Rightarrow> node list" where
  "visit_target ast visitedNodes targetNode stack =
     (let stack = (if targetNode \<notin> set visitedNodes then stack @ [targetNode] else stack);
          stack = (if Option.bind (scope_block (attrs targetNode)) (deref ast) = Some targetNode
                   then fold (\<lambda>n st. addToStack visitedNodes st n)
                          (deref_all ast (scope_through (attrs targetNode))) stack
                   else stack)
      in fold (\<lambda>n st. addToStack visitedNodes st n) (childNodes targetNode) stack)"

definition is_marked :: "node \<Rightarrow> bool" where
  "is_marked n = isMarked (attrs n)"

text \<open>Everything that can ever be on the stack: the nodes of the AST and of the stack, with all their descendants.\<close>

definition universe :: "node list \<Rightarrow> node list \<Rightarrow> node set" where
  "universe ast stack = (\<Union>n \<in> set ast \<union> set stack. set (subnodes n))"

lemma subnodes_trans: "m \<in> set (subnodes n) \<Longrightarrow> set (subnodes m) \<subseteq> set (subnodes n)"
proof (induction n rule: subnodes.induct)
  case (1 a cs)
  show ?case
  proof (cases "m = Node a cs")
    case True
    then show ?thesis by simp
  next
    case False
    with 1(2) obtain c where c: "c \<in> set cs" "m \<in> set (subnodes c)" by auto
    from 1(1) [OF c] c(1) show ?thesis by auto
  qed
qed

lemma subnodes_self: "n \<in> set (subnodes n)"
  by (cases n) simp

lemma subnodes_child: "c \<in> set (childNodes n) \<Longrightarrow> c \<in> set (subnodes n)"
  by (cases n) (auto intro: subnodes_self)

lemma finite_universe: "finite (universe ast stack)"
  by (simp add: universe_def)

lemma universe_mono: "set stack \<subseteq> universe ast stack' \<Longrightarrow> universe ast stack \<subseteq> universe ast stack'"
  unfolding universe_def using subnodes_trans by fastforce

lemma universe_stack: "set stack \<subseteq> universe ast stack"
  unfolding universe_def using subnodes_self by auto

lemma universe_ast: "set ast \<subseteq> universe ast stack"
  unfolding universe_def using subnodes_self by auto

lemma universe_child: "t \<in> universe ast stack \<Longrightarrow> set (childNodes t) \<subseteq> universe ast stack"
  unfolding universe_def using subnodes_trans subnodes_child by fastforce

lemma deref_in_ast: "deref ast i = Some n \<Longrightarrow> n \<in> set ast"
  by (auto simp: deref_def split: if_splits)

lemma deref_all_in_ast: "set (deref_all ast is) \<subseteq> set ast"
  by (auto simp: deref_all_def List.map_filter_def dest: deref_in_ast)

lemma parentNode_in_ast: "parentNode ast n = Some p \<Longrightarrow> p \<in> set ast"
  by (auto simp: parentNode_def split: option.splits dest: deref_in_ast)

lemma find_wrapper_in: "find_wrapper ast fuel n = Value w \<Longrightarrow> w = n \<or> w \<in> set ast"
proof (induction fuel arbitrary: n)
  case 0
  then show ?case
    by (subst (asm) find_wrapper.simps) (auto split: option.splits if_splits)
next
  case (Suc k)
  show ?case
  proof (cases "parentNode ast n")
    case None
    with Suc.prems show ?thesis by (subst (asm) find_wrapper.simps) simp
  next
    case (Some p)
    show ?thesis
    proof (cases "type (attrs n) \<in> set STANDALONE_WRAPPER_TYPES")
      case True
      with Some Suc.prems show ?thesis by (subst (asm) find_wrapper.simps) simp
    next
      case False
      with Some Suc.prems have "find_wrapper ast k p = Value w"
        by (subst (asm) find_wrapper.simps) simp
      from Suc.IH [OF this] parentNode_in_ast [OF Some] show ?thesis by auto
    qed
  qed
qed

lemma ref_targets_in_ast: "ref_targets PROPS ast node r = Value ts \<Longrightarrow> set ts \<subseteq> set ast"
  by (auto simp: ref_targets_def Let_def Option.bind_eq_Some_conv
      split: option.splits if_splits dest: parentNode_in_ast)

lemma refs_targets_in_ast: "refs_targets PROPS ast node refs = Value ts \<Longrightarrow> set ts \<subseteq> set ast"
proof (induction refs arbitrary: ts)
  case Nil
  then show ?case by simp
next
  case (Cons r refs)
  from Cons.prems obtain a b where a: "ref_targets PROPS ast node r = Value a"
    and b: "refs_targets PROPS ast node refs = Value b" and ts: "ts = a @ b"
    by (auto split: outcome.splits)
  from ref_targets_in_ast [OF a] Cons.IH [OF b] ts show ?case by auto
qed

lemma relatives_in: "relatives PROPS ast node = Value rs \<Longrightarrow> set rs \<subseteq> insert node (set ast)"
proof (cases "type (attrs node) = ''Identifier''")
  case True
  assume r: "relatives PROPS ast node = Value rs"
  let ?refs = "case references (attrs node) of None \<Rightarrow> [] | Some is \<Rightarrow> deref_all ast is"
  from r True obtain ts where ts: "refs_targets PROPS ast node ?refs = Value ts"
    by (auto simp: relatives_def Let_def split: outcome.splits)
  from r True ts refs_targets_in_ast [OF ts] show ?thesis
    by (auto simp: relatives_def Let_def Option.bind_eq_Some_conv
        split: option.splits if_splits dest: parentNode_in_ast)
next
  case False
  assume r: "relatives PROPS ast node = Value rs"
  with False show ?thesis
    by (auto simp: relatives_def Option.bind_eq_Some_conv
        split: option.splits if_splits outcome.splits dest: deref_in_ast find_wrapper_in)
qed

lemma addToStack_subset: "set (addToStack v st n) \<subseteq> insert n (set st)"
  by (auto simp: addToStack_def)

lemma fold_addToStack_subset:
  "set (fold (\<lambda>n st. addToStack v st n) ns st) \<subseteq> set ns \<union> set st"
proof (induction ns arbitrary: st)
  case Nil
  then show ?case by simp
next
  case (Cons n ns)
  from Cons.IH [of "addToStack v st n"] addToStack_subset [of v st n]
  show ?case by auto
qed

lemma visit_target_subset:
  "set (visit_target ast v t st) \<subseteq> set st \<union> insert t (set ast \<union> set (childNodes t))"
proof -
  let ?s1 = "if t \<notin> set v then st @ [t] else st"
  let ?th = "deref_all ast (scope_through (attrs t))"
  let ?s2 = "if Option.bind (scope_block (attrs t)) (deref ast) = Some t
             then fold (\<lambda>n st. addToStack v st n) ?th ?s1 else ?s1"
  have 1: "set ?s1 \<subseteq> insert t (set st)" by auto
  have 2: "set ?s2 \<subseteq> set ?s1 \<union> set ast"
  proof (cases "Option.bind (scope_block (attrs t)) (deref ast) = Some t")
    case True
    then have "set ?s2 \<subseteq> set ?th \<union> set ?s1"
      using fold_addToStack_subset [of v ?th ?s1] by simp
    with deref_all_in_ast [of ast "scope_through (attrs t)"] show ?thesis by blast
  next
    case False
    then show ?thesis by simp
  qed
  have 3: "set (visit_target ast v t st) \<subseteq> set (childNodes t) \<union> set ?s2"
    unfolding visit_target_def Let_def by (rule fold_addToStack_subset)
  from 1 2 3 show ?thesis by blast
qed

lemma fold_visit_target_subset:
  "set ts \<union> set st \<subseteq> universe ast stack
   \<Longrightarrow> set (fold (visit_target ast v) ts st) \<subseteq> universe ast stack"
proof (induction ts arbitrary: st)
  case Nil
  then show ?case by simp
next
  case (Cons t ts)
  from Cons.prems have t: "t \<in> universe ast stack" by simp
  have "set (visit_target ast v t st) \<subseteq> universe ast stack"
    using visit_target_subset [of ast v t st] Cons.prems t universe_child [OF t]
      universe_ast [of ast stack] by auto
  with Cons.prems have "set ts \<union> set (visit_target ast v t st) \<subseteq> universe ast stack" by simp
  from Cons.IH [OF this] show ?case by simp
qed

lemma next_stack_universe:
  assumes "relatives PROPS ast node = Value rs"
  shows "universe ast (fold (visit_target ast v) (node # rs) stack) \<subseteq> universe ast (node # stack)"
proof (rule universe_mono, rule fold_visit_target_subset)
  from relatives_in [OF assms] universe_ast [of ast "node # stack"]
    universe_stack [of "node # stack" ast]
  show "set (node # rs) \<union> set stack \<subseteq> universe ast (node # stack)" by auto
qed

function collect_loop ::
  "string list \<Rightarrow> node list \<Rightarrow> node list \<Rightarrow> node list \<Rightarrow> node list \<Rightarrow> (nat \<times> nat) list
     \<Rightarrow> node list outcome" where
  "collect_loop PROPS ast [] visitedNodes collected collectedRanges = Value collected"
| "collect_loop PROPS ast (node # stack) visitedNodes collected collectedRanges =
     (if node \<in> set visitedNodes
      then collect_loop PROPS ast stack visitedNodes collected collectedRanges
      else if isMarked (attrs node)
              \<or> doesDescendantMatchCondition (Some node) (Some is_marked) False \<noteq> RFalse
      then Value []
      else (case relatives PROPS ast node of
              TypeError \<Rightarrow> TypeError
            | Loops \<Rightarrow> Loops
            | Value rs \<Rightarrow>
                if type (attrs node) \<in> set TYPES_TO_COLLECT
                   \<and> \<not> isNodeInRanges node collectedRanges
                then collect_loop PROPS ast
                       (fold (visit_target ast (node # visitedNodes)) (node # rs) stack)
                       (node # visitedNodes) (collected @ [node])
                       (collectedRanges @ [range_of (attrs node)])
                else collect_loop PROPS ast
                       (fold (visit_target ast (node # visitedNodes)) (node # rs) stack)
                       (node # visitedNodes) collected collectedRanges))"
  by pat_completeness auto
termination
proof (relation "(\<lambda>(P, ast, stack, visited, c, r). card (universe ast stack - set visited))
                 <*mlex*> measure (\<lambda>(P, ast, stack, visited, c, r). length stack)",
       goal_cases)
  case 1
  show ?case by (simp add: wf_mlex)
next
  case (2 PROPS ast node stack visitedNodes collected collectedRanges)
  have "universe ast stack \<subseteq> universe ast (node # stack)"
    by (rule universe_mono) (use universe_stack [of "node # stack" ast] in auto)
  then have "card (universe ast stack - set visitedNodes)
             \<le> card (universe ast (node # stack) - set visitedNodes)"
    by (intro card_mono finite_Diff finite_universe) auto
  then show ?case by (simp add: mlex_leq)
next
  case (3 PROPS ast node stack visitedNodes collected collectedRanges rs)
  let ?new = "fold (visit_target ast (node # visitedNodes)) (node # rs) stack"
  have sub: "universe ast ?new \<subseteq> universe ast (node # stack)"
    by (rule next_stack_universe) (use 3 in simp)
  have n: "node \<in> universe ast (node # stack) - set visitedNodes"
    using 3(1) universe_stack [of "node # stack" ast] by auto
  have "universe ast ?new - set (node # visitedNodes)
        \<subset> universe ast (node # stack) - set visitedNodes"
    using sub n by auto
  then have "card (universe ast ?new - set (node # visitedNodes))
             < card (universe ast (node # stack) - set visitedNodes)"
    by (intro psubset_card_mono finite_Diff finite_universe)
  then show ?case by (simp add: mlex_less)
next
  case (4 PROPS ast node stack visitedNodes collected collectedRanges rs)
  let ?new = "fold (visit_target ast (node # visitedNodes)) (node # rs) stack"
  have sub: "universe ast ?new \<subseteq> universe ast (node # stack)"
    by (rule next_stack_universe) (use 4 in simp)
  have n: "node \<in> universe ast (node # stack) - set visitedNodes"
    using 4(1) universe_stack [of "node # stack" ast] by auto
  have "universe ast ?new - set (node # visitedNodes)
        \<subset> universe ast (node # stack) - set visitedNodes"
    using sub n by auto
  then have "card (universe ast ?new - set (node # visitedNodes))
             < card (universe ast (node # stack) - set visitedNodes)"
    by (intro psubset_card_mono finite_Diff finite_universe)
  then show ?case by (simp add: mlex_less)
qed

text \<open>\<open>ref.parentKey === 'left' && ref.parentNode?.type === 'AssignmentExpression'\<close>\<close>

definition plain_reassignment :: "node list \<Rightarrow> node \<Rightarrow> bool" where
  "plain_reassignment ast r \<longleftrightarrow>
     parentKey ast r = ''left''
     \<and> (case parentNode ast r of
           None \<Rightarrow> False
         | Some p \<Rightarrow> type (attrs p) = ''AssignmentExpression'')"

text \<open>\<open>n.id?.references\<close>, empty when the node has no \<open>id\<close> or the \<open>id\<close> no references.\<close>

definition id_references :: "node list \<Rightarrow> node \<Rightarrow> node list" where
  "id_references ast n =
     (case Option.bind (id_of (attrs n)) (deref ast) of
        None \<Rightarrow> []
      | Some i \<Rightarrow> (case references (attrs i) of None \<Rightarrow> [] | Some is \<Rightarrow> deref_all ast is))"

text \<open>
  The loop over \<open>collected\<close> that fills the set \<open>filteredNodes\<close>; the set is a list
  in insertion order, as the spread \<open>[...filteredNodes]\<close> reads it.
\<close>

fun filter_collected :: "node list \<Rightarrow> bool \<Rightarrow> node \<Rightarrow> node list \<Rightarrow> node list \<Rightarrow> node list" where
  "filter_collected ast excludeOriginNode originNode [] filteredNodes = filteredNodes"
| "filter_collected ast excludeOriginNode originNode (n # collected) filteredNodes =
     (if n \<in> set filteredNodes
         \<or> type (attrs n) \<in> set IRRELEVANT_FILTER_TYPES
         \<or> (excludeOriginNode \<and> isNodeInRanges n [range_of (attrs originNode)])
      then filter_collected ast excludeOriginNode originNode collected filteredNodes
      else if type (attrs n) = ''FunctionDeclaration'' \<and> id_references ast n \<noteq> []
      then (if \<exists>r \<in> set (id_references ast n). \<not> plain_reassignment ast r
            then filter_collected ast excludeOriginNode originNode collected (filteredNodes @ [n])
            else filter_collected ast excludeOriginNode originNode collected filteredNodes)
      else filter_collected ast excludeOriginNode originNode collected (filteredNodes @ [n]))"

text \<open>The two cache keys and the read \<open>cache[cacheNameId] || cache[cacheNameSrc]\<close>.\<close>

definition cacheNameId :: "host \<Rightarrow> node \<Rightarrow> string" where
  "cacheNameId h originNode =
     ''context-'' @ show_nat (nodeId (attrs originNode)) @ ''-''
       @ generateHash h (src (attrs originNode))"

definition cacheNameSrc :: "host \<Rightarrow> node \<Rightarrow> string" where
  "cacheNameSrc h originNode = ''context-'' @ generateHash h (src (attrs originNode))"

definition cached_context ::
  "host \<Rightarrow> node \<Rightarrow> ref \<Rightarrow> node list cache_state \<Rightarrow> node list option" where
  "cached_context h originNode cache s =
     (case obj_get cache (cacheNameId h originNode) s of
        Some c \<Rightarrow> Some c
      | None \<Rightarrow> obj_get cache (cacheNameSrc h originNode) s)"

text \<open>
  \<open>getDeclarationWithContext(originNode, excludeOriginNode = false)\<close>, with the flat AST
  the links of the nodes point into and the state of the shared cache. The cache holds
  the array of nodes as values, so a context read from it shows its nodes as they were
  when it was stored; in the code the array holds references, and a node that is marked
  after the context was stored is seen marked. The array is the same in both: the same
  nodes, in the same order.
\<close>

definition getDeclarationWithContext ::
  "string list \<Rightarrow> host \<Rightarrow> node list \<Rightarrow> node option \<Rightarrow> bool \<Rightarrow> node list cache_state
     \<Rightarrow> node list outcome \<times> node list cache_state" where
  "getDeclarationWithContext PROPS h ast originNode excludeOriginNode s =
     (case originNode of
        None \<Rightarrow> (Value [], s)
      | Some origin \<Rightarrow>
          (case getCache (scriptHash (attrs origin)) s of
             (cache, s) \<Rightarrow>
               (case cached_context h origin cache s of
                  Some cached \<Rightarrow> (Value cached, s)
                | None \<Rightarrow>
                    (case collect_loop PROPS ast [origin] [] [] [] of
                       TypeError \<Rightarrow> (TypeError, s)
                     | Loops \<Rightarrow> (Loops, s)
                     | Value collected \<Rightarrow>
                         (let cached = removeRedundantNodes
                                (filter_collected ast excludeOriginNode origin collected [])
                          in (Value cached,
                              obj_set cache (cacheNameSrc h origin) cached
                                (obj_set cache (cacheNameId h origin) cached s)))))))"

declare collect_loop.simps [simp del]


section \<open>createOrderedSrc (src/modules/utils/createOrderedSrc.js)\<close>

text \<open>
  \<open>createOrderedSrc\<close> writes to what it is given: it replaces elements of the array,
  assigns the \<open>nodeId\<close> of nodes of the tree, and creates nodes. The nodes therefore
  live in a store: a node is an address, its fields are read from the store, the links
  of a node (\<open>parentNode\<close>, \<open>id\<close>, \<open>declNode\<close>, \<open>callee\<close>, \<open>expression\<close>,
  \<open>arguments\<close>) are addresses, and a node that the parser creates takes the next free
  address. The array is the list of its elements, passed in and returned.
\<close>

record node_obj = attrs +
  callee :: "ref option"
  expression :: "ref option"
  arguments :: "ref list"
  kind :: "string option"

record ast_heap =
  nodes :: "ref \<Rightarrow> node_obj option"
  fresh :: ref

definition LARGE_NUMBER :: nat where
  "LARGE_NUMBER = 99900000000"

definition TYPES_REQUIRING_SEMICOLON :: "string list" where
  "TYPES_REQUIRING_SEMICOLON = [''VariableDeclarator'', ''AssignmentExpression'']"

text \<open>
  \<open>src.replace(/function[^(]*/, replacement)\<close>: the first \<open>function\<close> in the text,
  with everything up to the next \<open>(\<close>, is replaced. In the replacement \<open>$$\<close> stands for
  \<open>$\<close>, \<open>$&\<close> for the match, \<open>$`\<close> and \<open>$'\<close> for the text before and after it; the
  pattern has no groups, so any other \<open>$\<close> stands for itself.
\<close>

fun find_function :: "string \<Rightarrow> string \<Rightarrow> (string \<times> string \<times> string) option" where
  "find_function pre [] = None"
| "find_function pre (c # cs) =
     (if take 8 (c # cs) = ''function''
      then Some (rev pre,
                 ''function'' @ takeWhile (\<lambda>x. x \<noteq> CHR ''('') (drop 8 (c # cs)),
                 dropWhile (\<lambda>x. x \<noteq> CHR ''('') (drop 8 (c # cs)))
      else find_function (c # pre) cs)"

fun substitute :: "string \<Rightarrow> string \<Rightarrow> string \<Rightarrow> string \<Rightarrow> string" where
  "substitute pre matched post (a # b # cs) =
     (if a = CHR ''$'' \<and> b = CHR ''$'' then CHR ''$'' # substitute pre matched post cs
      else if a = CHR ''$'' \<and> b = CHR ''&'' then matched @ substitute pre matched post cs
      else if a = CHR ''$'' \<and> b = CHR 0x60 then pre @ substitute pre matched post cs
      else if a = CHR ''$'' \<and> b = CHR 0x27 then post @ substitute pre matched post cs
      else a # substitute pre matched post (b # cs))"
| "substitute pre matched post cs = cs"

definition replace_FUNC_START :: "string \<Rightarrow> string \<Rightarrow> string" where
  "replace_FUNC_START text replacement =
     (case find_function [] text of
        None \<Rightarrow> text
      | Some (pre, matched, post) \<Rightarrow>
          pre @ substitute pre matched post replacement @ post)"

text \<open>A node as the parser returns it for a text: the program node, nothing else is read.\<close>

definition parsed_program :: node_obj where
  "parsed_program = \<lparr>type = ''Program'', nodeId = 0, isMarked = False, src = [],
     range_of = (0, 0), scriptHash = Undefined, parent = None, declNode = None,
     references = None, id_of = None, property = None, name = None, value_of = None,
     scope_block = None, scope_through = [], callee = None, expression = None,
     arguments = [], kind = None\<rparr>"

text \<open>\<open>n.parentNode?.id?.name\<close>\<close>

definition parent_id_name :: "ast_heap \<Rightarrow> node_obj \<Rightarrow> string option" where
  "parent_id_name st n =
     Option.bind (parent n) (\<lambda>pk.
     Option.bind (nodes st (fst pk)) (\<lambda>p.
     Option.bind (id_of p) (\<lambda>i.
     Option.bind (nodes st i) name)))"

text \<open>
  \<open>addNameToFE(n, name)\<close>: the address of the new named node, or \<open>None\<close> for \<open>null\<close>,
  with the store after the call.
\<close>

definition addNameToFE ::
  "host \<Rightarrow> node_obj \<Rightarrow> string option \<Rightarrow> ast_heap \<Rightarrow> ref option \<times> ast_heap" where
  "addNameToFE h n name_arg st =
     (let name = (case name_arg of
                    Some nm \<Rightarrow> if nm \<noteq> [] then nm else ''func'' @ show_nat (nodeId n)
                  | None \<Rightarrow> ''func'' @ show_nat (nodeId n));
          funcSrc = ''('' @ replace_FUNC_START (src n) (''function '' @ name) @ '');''
      in case parseCode h funcSrc of
           ParseError \<Rightarrow> (None, st)
         | Program body \<Rightarrow>
             (Some (fresh st),
              st\<lparr>nodes := (nodes st)(fresh st \<mapsto> parsed_program\<lparr>nodeId := nodeId n, src := funcSrc\<rparr>),
                 fresh := Suc (fresh st)\<rparr>))"

text \<open>The loop \<open>for (let j = 0; j < nodes[i].expression.arguments.length; j++)\<close>.\<close>

definition maxArgNodeId :: "ast_heap \<Rightarrow> ref list \<Rightarrow> nat" where
  "maxArgNodeId st args =
     fold (\<lambda>arg m.
        case Option.bind (Option.bind (nodes st arg) declNode) (nodes st) of
          Some d \<Rightarrow> if nodeId d > m then nodeId d else m
        | None \<Rightarrow> m) args 0"

text \<open>Sequencing of calls that can throw.\<close>

fun and_then :: "'a outcome \<Rightarrow> ('a \<Rightarrow> 'b outcome) \<Rightarrow> 'b outcome" where
  "and_then (Value x) f = f x"
| "and_then TypeError f = TypeError"
| "and_then Loops f = Loops"

text \<open>Reading a property of what may be \<open>null\<close> or \<open>undefined\<close>.\<close>

fun non_null :: "'a option \<Rightarrow> 'a outcome" where
  "non_null None = TypeError"
| "non_null (Some x) = Value x"

text \<open>
  The assignment \<open>node.nodeId = f(node.nodeId)\<close> to the node at an address. A
  \<open>nodeId\<close> is a natural number and the sums are exact; the code adds doubles, which are
  exact below \<open>2^53\<close>, that is for fewer than 90000 additions of \<open>LARGE_NUMBER\<close> to one
  node.
\<close>

definition set_nodeId :: "ref \<Rightarrow> (nat \<Rightarrow> nat) \<Rightarrow> ast_heap \<Rightarrow> ast_heap" where
  "set_nodeId r f st =
     st\<lparr>nodes := (nodes st)(r := map_option (\<lambda>n. n\<lparr>nodeId := f (nodeId n)\<rparr>) (nodes st r))\<rparr>"

text \<open>\<open>node.parentNode\<close>, as address and as node.\<close>

definition parent_ref :: "node_obj \<Rightarrow> ref option" where
  "parent_ref n = map_option fst (parent n)"

text \<open>
  The body of the first loop up to the update of \<open>seenNodes\<close>: for the element
  \<open>nodes[i]\<close> it gives \<open>currentNode\<close>, which is also the new \<open>nodes[i]\<close>, and the store.
\<close>

definition current_node ::
  "host \<Rightarrow> bool \<Rightarrow> ref \<Rightarrow> ast_heap \<Rightarrow> (ref \<times> ast_heap) outcome" where
  "current_node h preserveOrder r st =
     and_then (non_null (nodes st r)) (\<lambda>n.
       if type n = ''CallExpression''
       then and_then (non_null (parent_ref n)) (\<lambda>pr.
            and_then (non_null (nodes st pr)) (\<lambda>p.
              if type p = ''ExpressionStatement''
              then (if preserveOrder then Value (pr, st)
                    else and_then (non_null (Option.bind (expression p) (nodes st))) (\<lambda>e.
                         and_then (non_null (Option.bind (callee e) (nodes st))) (\<lambda>c.
                           if type c = ''FunctionExpression''
                           then Value (pr,
                                  set_nodeId pr
                                    (\<lambda>i. if maxArgNodeId st (arguments e) \<noteq> 0
                                          then maxArgNodeId st (arguments e) + 1
                                          else i + LARGE_NUMBER) st)
                           else Value (pr, st))))
              else and_then (non_null (Option.bind (callee n) (nodes st))) (\<lambda>c.
                     if type c = ''FunctionExpression'' \<and> \<not> preserveOrder
                     then (case addNameToFE h n (parent_id_name st n) st of
                             (None, st) \<Rightarrow> Value (r, st)
                           | (Some namedFunc, st) \<Rightarrow>
                               Value (namedFunc,
                                      set_nodeId namedFunc (\<lambda>i. i + LARGE_NUMBER) st))
                     else Value (r, st))))
       else if type n = ''FunctionExpression'' \<and> id_of n = None
       then (case addNameToFE h n (parent_id_name st n) st of
               (None, st) \<Rightarrow> Value (r, st)
             | (Some namedFunc, st) \<Rightarrow> Value (namedFunc, st))
       else Value (r, st))"

text \<open>
  The first loop. \<open>seenNodes\<close> and \<open>processedNodes\<close> grow together, so the list stands
  for both. The result is the array after the loop, \<open>processedNodes\<close> and the store.
\<close>

fun first_loop ::
  "host \<Rightarrow> bool \<Rightarrow> ref list \<Rightarrow> ref list \<Rightarrow> ast_heap
     \<Rightarrow> (ref list \<times> ref list \<times> ast_heap) outcome" where
  "first_loop h preserveOrder [] processedNodes st = Value ([], processedNodes, st)"
| "first_loop h preserveOrder (r # rs) processedNodes st =
     and_then (current_node h preserveOrder r st) (\<lambda>(currentNode, st).
     and_then (first_loop h preserveOrder rs
                 (if currentNode \<in> set processedNodes then processedNodes
                  else processedNodes @ [currentNode]) st)
       (\<lambda>(nodes', processedNodes, st). Value (currentNode # nodes', processedNodes, st)))"

definition nodeId_at :: "ast_heap \<Rightarrow> ref \<Rightarrow> nat" where
  "nodeId_at st r = (case nodes st r of Some n \<Rightarrow> nodeId n | None \<Rightarrow> 0)"

text \<open>The second loop, which builds \<open>output\<close>.\<close>

fun second_loop :: "ast_heap \<Rightarrow> ref list \<Rightarrow> string outcome" where
  "second_loop st [] = Value []"
| "second_loop st (r # rs) =
     and_then (non_null (nodes st r)) (\<lambda>n.
     and_then (if type n = ''VariableDeclarator''
               then and_then (non_null (Option.bind (parent_ref n) (nodes st))) (\<lambda>p.
                      Value ((case kind p of Some k \<Rightarrow> k | None \<Rightarrow> ''undefined'') @ '' ''))
               else Value []) (\<lambda>prefix.
     and_then (second_loop st rs) (\<lambda>output.
       Value (prefix @ src n
              @ (if type n \<in> set TYPES_REQUIRING_SEMICOLON then '';'' else []) @ [nl]
              @ output))))"

text \<open>
  \<open>createOrderedSrc(nodes, preserveOrder = false)\<close>: the text, the array as the call
  leaves it, and the store. \<open>sort\<close> with \<open>sortByNodeId\<close> is stable, as \<open>sort_key\<close> is.
\<close>

definition createOrderedSrc ::
  "host \<Rightarrow> bool \<Rightarrow> ref list \<Rightarrow> ast_heap \<Rightarrow> (string \<times> ref list \<times> ast_heap) outcome" where
  "createOrderedSrc h preserveOrder nodes_arg st =
     and_then (first_loop h preserveOrder nodes_arg [] st) (\<lambda>(nodes', processedNodes, st).
     and_then (second_loop st (sort_key (nodeId_at st) processedNodes)) (\<lambda>output.
       Value (output, nodes', st)))"

text \<open>The text of a result, when the call returned.\<close>

fun result_text :: "(string \<times> ref list \<times> ast_heap) outcome \<Rightarrow> string option" where
  "result_text (Value (output, nodes', st)) = Some output"
| "result_text _ = None"

text \<open>
  A store is well formed when every node in it lies below the next free address, and so
  do the nodes its \<open>parentNode\<close>, \<open>id\<close> and \<open>callee\<close> links name.
\<close>

definition heap_wf :: "ast_heap \<Rightarrow> bool" where
  "heap_wf st \<longleftrightarrow>
     (\<forall>a n. nodes st a = Some n \<longrightarrow>
        a < fresh st
        \<and> (\<forall>l. parent_ref n = Some l \<longrightarrow> l < fresh st)
        \<and> (\<forall>l. id_of n = Some l \<longrightarrow> l < fresh st)
        \<and> (\<forall>l. callee n = Some l \<longrightarrow> l < fresh st))"

text \<open>
  An element is settled when a round of the first loop leaves it and the store as they
  are; a later store shows of every earlier node everything but its \<open>nodeId\<close>, and
  that too unless the node is an expression statement.
\<close>

definition settled :: "host \<Rightarrow> bool \<Rightarrow> ast_heap \<Rightarrow> ref \<Rightarrow> bool" where
  "settled h po st r \<longleftrightarrow> current_node h po r st = Value (r, st)"

definition evolves :: "ast_heap \<Rightarrow> ast_heap \<Rightarrow> bool" where
  "evolves st st' \<longleftrightarrow>
     fresh st \<le> fresh st'
     \<and> (\<forall>a < fresh st.
          (nodes st a = None \<longrightarrow> nodes st' a = None)
          \<and> (\<forall>n. nodes st a = Some n \<longrightarrow>
                (\<exists>i. nodes st' a = Some (n\<lparr>nodeId := i\<rparr>)
                     \<and> (type n \<noteq> ''ExpressionStatement'' \<longrightarrow> i = nodeId n))))"

text \<open>What the first loop adds to \<open>processedNodes\<close> for the elements it has seen.\<close>

definition add_all :: "ref list \<Rightarrow> ref list \<Rightarrow> ref list" where
  "add_all processedNodes rs =
     fold (\<lambda>c pn. if c \<in> set pn then pn else pn @ [c]) rs processedNodes"

section \<open>Example data\<close>

text \<open>A node with every optional field absent; examples set the fields they need.\<close>

definition blank :: attrs where
  "blank = \<lparr>type = [], nodeId = 0, isMarked = False, src = [], range_of = (0, 0),
     scriptHash = Undefined, parent = None, declNode = None, references = None,
     id_of = None, property = None, name = None, value_of = None, scope_block = None,
     scope_through = []\<rparr>"

text \<open>
  A host for the examples: no function text parses, and the console has three keys.
\<close>

definition no_parser :: "string \<Rightarrow> parse_outcome" where
  "no_parser s = ParseError"

definition native_max :: jsval where
  "native_max = VFunction ''function max() { [native code] }''"

definition array_with_native :: jsval where
  "array_with_native = VArray [VPrim (PNumber (Num ''1'')), VObject [(''a'', native_max)]]"

definition while_true_safe :: string where
  "while_true_safe = ''while(true) {}; '' @ [sq] @ ''safe'' @ [sq]"

definition while_0_safe :: string where
  "while_0_safe = ''while (0) {}; '' @ [sq] @ ''safe'' @ [sq]"

definition object_valueOf :: string where
  "object_valueOf = ''({valueOf: 1})''"



text \<open>The isolate of a sandbox that has been disposed of: every run throws.\<close>

definition dead_isolate :: isolate where
  "dead_isolate script = Throws"

text \<open>
  An isolate that runs two scripts and throws on every other one (on a call of a deleted
  built-in, at the timeout in a loop).
\<close>

definition example_isolate :: isolate where
  "example_isolate script =
     (if script = ''delete Math.random; delete Date;'' @ [nl, nl] @ while_0_safe
      then Returned (Reference ''Object'' (Some (VPrim (PString ''safe''))))
      else if script = ''delete Math.random; delete Date;'' @ [nl, nl] @ object_valueOf
      then Returned (Reference ''Object'' (Some (VObject [(''valueOf'', VPrim (PNumber (Num ''1'')))])))
      else Throws)"

definition example_host :: host where
  "example_host = \<lparr>md5 = (\<lambda>s. s), console_keys = [''log'', ''warn'', ''error''],
     parseCode = no_parser, new_Sandbox = Some example_isolate\<rparr>"



text \<open>The flat AST of \<open>a();\<close>, with the call marked or not.\<close>

definition in_script :: attrs where
  "in_script = blank\<lparr>scriptHash := Str ''script-1'', scope_block := Some 0\<rparr>"

definition a_callee :: node where
  "a_callee = Node (in_script\<lparr>type := ''Identifier'', nodeId := 3, src := ''a'',
     range_of := (0, 1), parent := Some (2, ''callee''), name := Some ''a''\<rparr>) []"

definition a_call :: "bool \<Rightarrow> node" where
  "a_call m = Node (in_script\<lparr>type := ''CallExpression'', nodeId := 2, isMarked := m,
     src := ''a()'', range_of := (0, 3), parent := Some (1, ''expression'')\<rparr>) [a_callee]"

definition a_statement :: "bool \<Rightarrow> node" where
  "a_statement m = Node (in_script\<lparr>type := ''ExpressionStatement'', nodeId := 1,
     src := ''a();'', range_of := (0, 4), parent := Some (0, ''body'')\<rparr>) [a_call m]"

definition a_program :: "bool \<Rightarrow> node" where
  "a_program m = Node (in_script\<lparr>type := ''Program'', nodeId := 0, src := ''a();'',
     range_of := (0, 4)\<rparr>) [a_statement m]"

definition a_ast :: "bool \<Rightarrow> node list" where
  "a_ast m = [a_program m, a_statement m, a_call m, a_callee]"

text \<open>The flat AST of \<open>function f() {}\<close>: the function is declared and never referenced.\<close>

definition f_id :: node where
  "f_id = Node (in_script\<lparr>type := ''Identifier'', nodeId := 2, src := ''f'',
     range_of := (9, 10), parent := Some (1, ''id''), name := Some ''f'',
     references := Some []\<rparr>) []"

definition f_body :: node where
  "f_body = Node (in_script\<lparr>type := ''BlockStatement'', nodeId := 3, src := ''{}'',
     range_of := (13, 15), parent := Some (1, ''body''), scope_block := Some 1\<rparr>) []"

definition f_declaration :: node where
  "f_declaration = Node (in_script\<lparr>type := ''FunctionDeclaration'', nodeId := 1,
     src := ''function f() {}'', range_of := (0, 15), parent := Some (0, ''body''),
     id_of := Some 2, scope_block := Some 1\<rparr>) [f_id, f_body]"

definition f_program :: node where
  "f_program = Node (in_script\<lparr>type := ''Program'', nodeId := 0, src := ''function f() {}'',
     range_of := (0, 15)\<rparr>) [f_declaration]"

definition f_ast :: "node list" where
  "f_ast = [f_program, f_declaration, f_id, f_body]"



text \<open>The flat AST of \<open>function g() {} g = 1;\<close>: the only reference to \<open>g\<close> overwrites it.\<close>

definition g_id :: node where
  "g_id = Node (in_script\<lparr>type := ''Identifier'', nodeId := 2, src := ''g'',
     range_of := (9, 10), parent := Some (1, ''id''), name := Some ''g'',
     references := Some [6]\<rparr>) []"

definition g_body :: node where
  "g_body = Node (in_script\<lparr>type := ''BlockStatement'', nodeId := 3, src := ''{}'',
     range_of := (13, 15), parent := Some (1, ''body''), scope_block := Some 1\<rparr>) []"

definition g_declaration :: node where
  "g_declaration = Node (in_script\<lparr>type := ''FunctionDeclaration'', nodeId := 1,
     src := ''function g() {}'', range_of := (0, 15), parent := Some (0, ''body''),
     id_of := Some 2, scope_block := Some 1\<rparr>) [g_id, g_body]"

definition g_left :: node where
  "g_left = Node (in_script\<lparr>type := ''Identifier'', nodeId := 6, src := ''g'',
     range_of := (16, 17), parent := Some (5, ''left''), name := Some ''g'',
     declNode := Some 2\<rparr>) []"

definition g_right :: node where
  "g_right = Node (in_script\<lparr>type := ''Literal'', nodeId := 7, src := ''1'',
     range_of := (20, 21), parent := Some (5, ''right'')\<rparr>) []"

definition g_assignment :: node where
  "g_assignment = Node (in_script\<lparr>type := ''AssignmentExpression'', nodeId := 5,
     src := ''g = 1'', range_of := (16, 21), parent := Some (4, ''expression'')\<rparr>)
     [g_left, g_right]"

definition g_statement :: node where
  "g_statement = Node (in_script\<lparr>type := ''ExpressionStatement'', nodeId := 4,
     src := ''g = 1;'', range_of := (16, 22), parent := Some (0, ''body'')\<rparr>) [g_assignment]"

definition g_program :: node where
  "g_program = Node (in_script\<lparr>type := ''Program'', nodeId := 0,
     src := ''function g() {} g = 1;'', range_of := (0, 22)\<rparr>) [g_declaration, g_statement]"

definition g_ast :: "node list" where
  "g_ast = [g_program, g_declaration, g_id, g_body, g_statement, g_assignment, g_left, g_right]"

definition some_PROPERTIES :: "string list" where
  "some_PROPERTIES = [''push'', ''pop'', ''shift'', ''unshift'', ''splice'']"


text \<open>
  The store for \<open>(function(){})(); !function(a){}();\<close>, with the nodes that are read:
  the first statement (1), its call (2) and the callee (3); the unary expression (6), its
  call (7) and the callee (8).
\<close>

definition obj :: "string \<Rightarrow> nat \<Rightarrow> string \<Rightarrow> (nat \<times> string) option \<Rightarrow> node_obj" where
  "obj t i s p = parsed_program\<lparr>type := t, nodeId := i, src := s, parent := p\<rparr>"

definition iife_heap :: ast_heap where
  "iife_heap = \<lparr>nodes = Map.empty(
       1 \<mapsto> (obj ''ExpressionStatement'' 1 ''(function(){})();'' (Some (0, ''body'')))
               \<lparr>expression := Some 2\<rparr>,
       2 \<mapsto> (obj ''CallExpression'' 2 ''(function(){})()'' (Some (1, ''expression'')))
               \<lparr>callee := Some 3\<rparr>,
       3 \<mapsto> obj ''FunctionExpression'' 3 ''function(){}'' (Some (2, ''callee'')),
       6 \<mapsto> obj ''UnaryExpression'' 6 ''!function(a){}()'' (Some (5, ''expression'')),
       7 \<mapsto> (obj ''CallExpression'' 7 ''function(a){}()'' (Some (6, ''argument'')))
               \<lparr>callee := Some 8\<rparr>,
       8 \<mapsto> obj ''FunctionExpression'' 8 ''function(a){}'' (Some (7, ''callee''))),
     fresh = 11\<rparr>"

definition any_parser :: "string \<Rightarrow> parse_outcome" where
  "any_parser s = Program [s]"

definition parsing_host :: host where
  "parsing_host = example_host\<lparr>parseCode := any_parser\<rparr>"

definition iife_heap_after :: ast_heap where
  "iife_heap_after =
     (case createOrderedSrc parsing_host False [2, 7] iife_heap of
        Value (output, nodes', st) \<Rightarrow> st
      | _ \<Rightarrow> iife_heap)"

text \<open>
  The store for \<open>const x = 1; (function(a){return a;})(x);\<close>, with the nodes that are
  read: the declaration (1), its declarator (2) and the declared name (3); the
  statement (5), its call (6) and the callee (7); the argument (12), a reference to the
  declared name.
\<close>

definition arg_heap :: ast_heap where
  "arg_heap = \<lparr>nodes = Map.empty(
       1 \<mapsto> (obj ''VariableDeclaration'' 1 ''const x = 1;'' (Some (0, ''body'')))
               \<lparr>kind := Some ''const''\<rparr>,
       2 \<mapsto> obj ''VariableDeclarator'' 2 ''x = 1'' (Some (1, ''declarations'')),
       3 \<mapsto> obj ''Identifier'' 3 ''x'' (Some (2, ''id'')),
       5 \<mapsto> (obj ''ExpressionStatement'' 5 ''(function(a){return a;})(x);'' (Some (0, ''body'')))
               \<lparr>expression := Some 6\<rparr>,
       6 \<mapsto> (obj ''CallExpression'' 6 ''(function(a){return a;})(x)'' (Some (5, ''expression'')))
               \<lparr>callee := Some 7, arguments := [12]\<rparr>,
       7 \<mapsto> obj ''FunctionExpression'' 7 ''function(a){return a;}'' (Some (6, ''callee'')),
       12 \<mapsto> (obj ''Identifier'' 12 ''x'' (Some (6, ''arguments'')))\<lparr>declNode := Some 3\<rparr>),
     fresh = 13\<rparr>"

definition arg_heap_after :: ast_heap where
  "arg_heap_after =
     (case createOrderedSrc parsing_host False [6, 2] arg_heap of
        Value (output, nodes', st) \<Rightarrow> st
      | _ \<Rightarrow> arg_heap)"

text \<open>Writes and a call with the same identity, after \<open>getCache('h')\<close>.\<close>

definition example_ops :: "nat cache_op list" where
  "example_ops = [Put 1 ''k'' 7, Get (Str ''h''), Put 1 ''j'' 8]"

text \<open>A cache after \<open>getCache('h')['k'] = 7\<close>.\<close>

definition cache_h :: "nat cache_state" where
  "cache_h = obj_set 1 ''k'' 7 (snd (getCache (Str ''h'') initial_cache))"

text \<open>The literal \<open>1\<close> of \<open>const a = 1;\<close>, and the test for literals.\<close>

definition literal_1 :: node where
  "literal_1 = Node (blank\<lparr>type := ''Literal'', nodeId := 4, src := ''1'', range_of := (10, 11),
     parent := Some (2, ''init''), scope_block := Some 0\<rparr>) []"

definition is_literal :: "node \<Rightarrow> bool" where
  "is_literal n \<longleftrightarrow> type (attrs n) = ''Literal''"

section \<open>Properties of the cache\<close>

lemma cache_wf_initial: "cache_wf (initial_cache :: 'v cache_state)"
  by (simp add: cache_wf_def initial_cache_def)

lemma cache_wf_getCache: "cache_wf s \<Longrightarrow> cache_wf (snd (getCache h s))"
  by (auto simp: cache_wf_def getCache_def new_object_def Let_def)

lemma cache_wf_flush: "cache_wf s \<Longrightarrow> cache_wf (flush s)"
  by (auto simp: cache_wf_def flush_def new_object_def Let_def)

lemma cache_wf_obj_set: "cache_wf s \<Longrightarrow> cache_wf (obj_set r k v s)"
  by (auto simp: cache_wf_def obj_set_def split: option.splits)

lemma resident_apply_op:
  assumes "keeps_mapping a op"
    and "RELEVANT_SCRIPT_HASH s = nullish_no_hash a" "CACHE s = r" "objects s r \<noteq> None"
  shows "RELEVANT_SCRIPT_HASH (apply_op op s) = nullish_no_hash a
         \<and> CACHE (apply_op op s) = r \<and> objects (apply_op op s) r \<noteq> None"
  using assms
  by (cases op) (auto simp: getCache_def obj_set_def split: option.splits)

lemma resident_fold:
  assumes "list_all (keeps_mapping a) ops"
    and "RELEVANT_SCRIPT_HASH s = nullish_no_hash a" "CACHE s = r" "objects s r \<noteq> None"
  shows "RELEVANT_SCRIPT_HASH (fold apply_op ops s) = nullish_no_hash a
         \<and> CACHE (fold apply_op ops s) = r \<and> objects (fold apply_op ops s) r \<noteq> None"
  using assms
proof (induction ops arbitrary: s)
  case Nil
  then show ?case by simp
next
  case (Cons op ops)
  from Cons.prems have k: "keeps_mapping a op" and ks: "list_all (keeps_mapping a) ops"
    by simp_all
  from resident_apply_op [OF k Cons.prems(2-4)] Cons.IH [OF ks, of "apply_op op s"]
  show ?case by simp
qed

lemma getCache_resident:
  assumes "cache_wf s"
  shows "RELEVANT_SCRIPT_HASH (snd (getCache a s)) = nullish_no_hash a
         \<and> CACHE (snd (getCache a s)) = fst (getCache a s)
         \<and> objects (snd (getCache a s)) (fst (getCache a s)) \<noteq> None"
  using assms by (auto simp: cache_wf_def getCache_def new_object_def Let_def)

lemma getCache_different:
  assumes "cache_wf s" "RELEVANT_SCRIPT_HASH s \<noteq> nullish_no_hash b"
  shows "fst (getCache b s) \<noteq> CACHE s"
    and "entries (fst (getCache b s)) (snd (getCache b s)) = Some Map.empty"
    and "fst (getCache b s) = next_ref s"
  using assms by (auto simp: cache_wf_def getCache_def new_object_def Let_def entries_def)

lemma cache_wf_apply_op: "cache_wf s \<Longrightarrow> cache_wf (apply_op op s)"
  by (cases op) (simp_all add: cache_wf_getCache cache_wf_obj_set cache_wf_flush)

lemma cache_wf_fold: "cache_wf s \<Longrightarrow> cache_wf (fold apply_op ops s)"
  by (induction ops arbitrary: s) (simp_all add: cache_wf_apply_op)

lemma getCache_hit:
  "RELEVANT_SCRIPT_HASH s = nullish_no_hash a \<Longrightarrow> getCache a s = (CACHE s, s)"
  by (simp add: getCache_def)

lemma next_ref_getCache: "next_ref s \<le> next_ref (snd (getCache a s))"
  by (simp add: getCache_def new_object_def Let_def)

lemma next_ref_apply_op: "next_ref s \<le> next_ref (apply_op op s)"
  by (cases op) (auto simp: next_ref_getCache obj_set_def flush_def new_object_def
      split: option.splits)

lemma next_ref_fold: "next_ref s \<le> next_ref (fold apply_op ops s)"
proof (induction ops arbitrary: s)
  case Nil
  then show ?case by simp
next
  case (Cons op ops)
  from next_ref_apply_op [of s op] Cons [of "apply_op op s"] show ?case by simp
qed

lemma obj_get_obj_set: "objects s r \<noteq> None \<Longrightarrow> obj_get r k (obj_set r k v s) = Some v"
  by (auto simp: obj_get_def obj_set_def)

text \<open>
  C2, as the code has it. After a call of \<open>getCache\<close> with an identity, any number of
  writes through handles and of calls with the same identity (compared after
  \<open>null\<close>/\<open>undefined\<close> have become \<open>'no-hash'\<close>) leave the mapping object in place: the
  next call with that identity returns the same reference, and a write through it is
  read through the first handle. A call with a different identity returns a new, empty
  mapping, and a later call with the first identity returns another new, empty mapping.
  \<open>null\<close> and \<open>undefined\<close> behave as the identity \<open>'no-hash'\<close>. No \<open>flush\<close> occurs in
  between.
\<close>

theorem getCache_contract:
  assumes wf: "cache_wf s"
  shows "(list_all (keeps_mapping a) ops \<longrightarrow>
            getCache a (fold apply_op ops (snd (getCache a s)))
              = (fst (getCache a s), fold apply_op ops (snd (getCache a s)))
            \<and> obj_get (fst (getCache a s)) k
                 (obj_set (fst (getCache a (fold apply_op ops (snd (getCache a s))))) k v
                    (fold apply_op ops (snd (getCache a s)))) = Some v)
       \<and> (nullish_no_hash a \<noteq> nullish_no_hash b \<and> list_all (keeps_mapping a) ops
            \<and> list_all (keeps_mapping b) ops' \<longrightarrow>
            (case getCache b (fold apply_op ops (snd (getCache a s))) of (r2, s2) \<Rightarrow>
               r2 \<noteq> fst (getCache a s) \<and> entries r2 s2 = Some Map.empty \<and>
               (case getCache a (fold apply_op ops' s2) of (r3, s3) \<Rightarrow>
                  r3 \<noteq> r2 \<and> r3 \<noteq> fst (getCache a s) \<and> entries r3 s3 = Some Map.empty)))
       \<and> getCache Null s = getCache (Str ''no-hash'') s
       \<and> getCache Undefined s = getCache (Str ''no-hash'') s"
proof -
  let ?r1 = "fst (getCache a s)" and ?s1 = "snd (getCache a s)"
  let ?s2 = "fold apply_op ops ?s1"
  note g = getCache_resident [OF wf, of a]
  have wf1: "cache_wf ?s1" by (intro cache_wf_getCache wf)
  have wf2: "cache_wf ?s2" by (intro cache_wf_fold wf1)
  have part1: "getCache a ?s2 = (?r1, ?s2)
      \<and> obj_get ?r1 k (obj_set (fst (getCache a ?s2)) k v ?s2) = Some v"
    if ops: "list_all (keeps_mapping a) ops"
  proof -
    from resident_fold [OF ops, of ?s1 ?r1] g
    have res: "RELEVANT_SCRIPT_HASH ?s2 = nullish_no_hash a" "CACHE ?s2 = ?r1"
      "objects ?s2 ?r1 \<noteq> None" by simp_all
    from getCache_hit [OF res(1)] res(2) have same: "getCache a ?s2 = (?r1, ?s2)" by simp
    from obj_get_obj_set [OF res(3)] same show ?thesis by simp
  qed
  have part2: "case getCache b ?s2 of (r2, s2) \<Rightarrow>
               r2 \<noteq> ?r1 \<and> entries r2 s2 = Some Map.empty \<and>
               (case getCache a (fold apply_op ops' s2) of (r3, s3) \<Rightarrow>
                  r3 \<noteq> r2 \<and> r3 \<noteq> ?r1 \<and> entries r3 s3 = Some Map.empty)"
    if h: "nullish_no_hash a \<noteq> nullish_no_hash b \<and> list_all (keeps_mapping a) ops
               \<and> list_all (keeps_mapping b) ops'"
  proof -
    from h have ne: "nullish_no_hash a \<noteq> nullish_no_hash b"
      and ops: "list_all (keeps_mapping a) ops" and ops': "list_all (keeps_mapping b) ops'"
      by simp_all
    from resident_fold [OF ops, of ?s1 ?r1] g
    have res: "RELEVANT_SCRIPT_HASH ?s2 = nullish_no_hash a" "CACHE ?s2 = ?r1" by simp_all
    let ?r2 = "fst (getCache b ?s2)" and ?t = "snd (getCache b ?s2)"
    from res(1) ne have "RELEVANT_SCRIPT_HASH ?s2 \<noteq> nullish_no_hash b" by simp
    note nb = this
    from getCache_different(1) [OF wf2 nb] res(2) have d2a: "?r2 \<noteq> ?r1" by simp
    note d2b = getCache_different(2) [OF wf2 nb]
    note gb = getCache_resident [OF wf2, of b]
    have wft: "cache_wf ?t" by (intro cache_wf_getCache wf2)
    let ?t2 = "fold apply_op ops' ?t"
    from resident_fold [OF ops', of ?t ?r2] gb
    have res2: "RELEVANT_SCRIPT_HASH ?t2 = nullish_no_hash b" "CACHE ?t2 = ?r2" by simp_all
    have wf3: "cache_wf ?t2" by (intro cache_wf_fold wft)
    let ?r3 = "fst (getCache a ?t2)" and ?u = "snd (getCache a ?t2)"
    from res2(1) ne have "RELEVANT_SCRIPT_HASH ?t2 \<noteq> nullish_no_hash a" by simp
    note na = this
    from getCache_different(1) [OF wf3 na] res2(2) have d3a: "?r3 \<noteq> ?r2" by simp
    note d3b = getCache_different(2) [OF wf3 na]
    note d3c = getCache_different(3) [OF wf3 na]
    from wf2 res(2) have "?r1 < next_ref ?s2" by (simp add: cache_wf_def)
    also have "\<dots> \<le> next_ref ?t" by (rule next_ref_getCache)
    also have "\<dots> \<le> next_ref ?t2" by (rule next_ref_fold)
    finally have d3d: "?r3 \<noteq> ?r1" using d3c by simp
    show ?thesis unfolding case_prod_beta by (intro conjI d2a d2b d3a d3b d3d)
  qed
  have part3: "getCache Null s = getCache (Str ''no-hash'') s"
    "getCache Undefined s = getCache (Str ''no-hash'') s"
    by (simp_all add: getCache_def)
  from part1 part2 part3 show ?thesis by blast
qed

text \<open>
  C2, as the claim states it, fails when \<open>flush\<close> is called between the two calls:
  no call under another identity intervenes, and the second call returns another object
  than the first.
\<close>

theorem getCache_after_flush_differs:
  "fst (getCache (Str ''h'') initial_cache) = 1
   \<and> fst (getCache (Str ''h'') (flush (snd (getCache (Str ''h'') initial_cache)))) = 2"
  by (simp add: getCache_def flush_def new_object_def initial_cache_def Let_def)

theorem getCache_contract_witness:
  "cache_wf (initial_cache :: nat cache_state)
   \<and> list_all (keeps_mapping (Str ''h'')) example_ops
   \<and> list_all (keeps_mapping Null) [Put 2 ''k'' (9::nat)]
   \<and> nullish_no_hash (Str ''h'') \<noteq> nullish_no_hash Null
   \<and> fst (getCache (Str ''h'') (initial_cache :: nat cache_state)) = 1
   \<and> fst (getCache (Str ''h'') (fold apply_op example_ops (snd (getCache (Str ''h'') initial_cache)))) = 1
   \<and> obj_get 1 ''k'' (fold apply_op example_ops (snd (getCache (Str ''h'') initial_cache))) = Some 7
   \<and> fst (getCache Null (fold apply_op example_ops (snd (getCache (Str ''h'') initial_cache)))) = 2
   \<and> entries 2 (snd (getCache Null
         (fold apply_op example_ops (snd (getCache (Str ''h'') initial_cache))))) = Some Map.empty
   \<and> fst (getCache (Str ''h'') (fold apply_op [Put 2 ''k'' 9] (snd (getCache Null
         (fold apply_op example_ops (snd (getCache (Str ''h'') initial_cache))))))) = 3"
proof -
  let ?s = "initial_cache :: nat cache_state"
  have k1: "list_all (keeps_mapping (Str ''h'')) example_ops" by (simp add: example_ops_def)
  have k2: "list_all (keeps_mapping Null) [Put 2 ''k'' (9::nat)]" by simp
  have ne: "nullish_no_hash (Str ''h'') \<noteq> nullish_no_hash Null" by simp
  note c = getCache_contract [OF cache_wf_initial, of "Str ''h''" example_ops "''k''" 7 Null
      "[Put 2 ''k'' 9]"]
  have r1: "fst (getCache (Str ''h'') ?s) = 1"
    by (simp add: getCache_def new_object_def initial_cache_def Let_def)
  from c k1 r1
  have same: "fst (getCache (Str ''h'') (fold apply_op example_ops (snd (getCache (Str ''h'') ?s)))) = 1"
    by simp
  have rd: "obj_get 1 ''k'' (fold apply_op example_ops (snd (getCache (Str ''h'') ?s))) = Some 7"
    by (simp add: example_ops_def getCache_def new_object_def initial_cache_def obj_set_def
        obj_get_def Let_def)
  have r2: "fst (getCache Null (fold apply_op example_ops (snd (getCache (Str ''h'') ?s)))) = 2"
    by (simp add: example_ops_def getCache_def new_object_def initial_cache_def obj_set_def
        Let_def)
  from c k1 k2 ne
  have e2: "entries (fst (getCache Null (fold apply_op example_ops (snd (getCache (Str ''h'') ?s)))))
         (snd (getCache Null (fold apply_op example_ops (snd (getCache (Str ''h'') ?s)))))
       = Some Map.empty"
    by (simp add: case_prod_beta)
  have r3: "fst (getCache (Str ''h'') (fold apply_op [Put 2 ''k'' 9] (snd (getCache Null
         (fold apply_op example_ops (snd (getCache (Str ''h'') ?s))))))) = 3"
    by (simp add: example_ops_def getCache_def new_object_def initial_cache_def obj_set_def
        Let_def)
  show ?thesis
    by (intro conjI cache_wf_initial k1 k2 ne r1 same rd r2 e2 [unfolded r2] r3)
qed

text \<open>
  C6, as the code has it. \<open>flush\<close> does not empty the resident mapping in place: it
  makes \<open>CACHE\<close> point to a new empty object. The object that was resident keeps its
  entries, so a handle obtained before the flush still reads them. The owning script
  hash is unchanged, and a following \<open>getCache\<close> with the owning identity returns the new
  empty object without replacing it again.
\<close>

theorem flush_replaces_mapping:
  assumes wf: "cache_wf s"
  shows "RELEVANT_SCRIPT_HASH (flush s) = RELEVANT_SCRIPT_HASH s
       \<and> CACHE (flush s) \<noteq> CACHE s
       \<and> entries (CACHE (flush s)) (flush s) = Some Map.empty
       \<and> (\<forall>r. r < next_ref s \<longrightarrow> entries r (flush s) = entries r s)
       \<and> (nullish_no_hash a = RELEVANT_SCRIPT_HASH s \<longrightarrow>
            getCache a (flush s) = (CACHE (flush s), flush s))"
  using wf
  by (auto simp: cache_wf_def getCache_def flush_def new_object_def Let_def entries_def)

theorem flush_replaces_mapping_witness:
  "cache_wf cache_h
   \<and> nullish_no_hash (Str ''h'') = RELEVANT_SCRIPT_HASH cache_h
   \<and> (1::nat) < next_ref cache_h
   \<and> CACHE cache_h = 1 \<and> CACHE (flush cache_h) = 2
   \<and> entries 1 (flush cache_h) = entries 1 cache_h
   \<and> getCache (Str ''h'') (flush cache_h) = (2, flush cache_h)"
proof -
  have wf: "cache_wf cache_h"
    unfolding cache_h_def by (intro cache_wf_obj_set cache_wf_getCache cache_wf_initial)
  have own: "RELEVANT_SCRIPT_HASH cache_h = Str ''h''"
    by (simp add: cache_h_def getCache_def new_object_def initial_cache_def obj_set_def Let_def)
  have nx: "(1::nat) < next_ref cache_h"
    by (simp add: cache_h_def getCache_def new_object_def initial_cache_def obj_set_def Let_def)
  have c1: "CACHE cache_h = 1"
    by (simp add: cache_h_def getCache_def new_object_def initial_cache_def obj_set_def Let_def)
  have c2: "CACHE (flush cache_h) = 2"
    by (simp add: cache_h_def getCache_def new_object_def initial_cache_def obj_set_def
        flush_def Let_def)
  from flush_replaces_mapping [OF wf, of "Str ''h''"] wf own nx c1 c2 show ?thesis by simp
qed

text \<open>
  C6, as the claim states it, fails: after \<open>getCache('h')['k'] = 7\<close> and \<open>flush()\<close> the
  variable \<open>CACHE\<close> holds another object than the handle \<open>1\<close> returned before, and the
  object behind that handle still has its entry.
\<close>

theorem flush_in_place_counterexample:
  "fst (getCache (Str ''h'') initial_cache) = 1
   \<and> CACHE cache_h = 1
   \<and> CACHE (flush cache_h) \<noteq> 1
   \<and> obj_get 1 ''k'' (flush cache_h) = Some 7"
  by (simp add: cache_h_def getCache_def new_object_def initial_cache_def obj_set_def
      obj_get_def flush_def Let_def)

section \<open>Properties of doesDescendantMatchCondition\<close>

lemma subnodes_children:
  "set (subnodes n) = insert n (\<Union>c \<in> set (childNodes n). set (subnodes c))"
  by (cases n) auto

lemma ddmc_loop_false_iff:
  "ddmc_loop c r stack = RFalse \<longleftrightarrow> (\<forall>s \<in> set stack. \<forall>m \<in> set (subnodes s). \<not> c m)"
proof (induction c r stack rule: ddmc_loop.induct)
  case (1 condition returnNode)
  then show ?case by simp
next
  case (2 condition returnNode currentNode stack)
  show ?case
  proof (cases "condition currentNode")
    case True
    then show ?thesis using subnodes_self[of currentNode] by auto
  next
    case False
    then show ?thesis using 2 by (auto simp: subnodes_children[of currentNode])
  qed
qed

lemma ddmc_loop_bool: "ddmc_loop c False stack = RTrue \<or> ddmc_loop c False stack = RFalse"
  by (induction c "False" stack rule: ddmc_loop.induct) auto

text \<open>
  C10. The target node itself is tested: when the condition holds on the target, the
  result is \<open>true\<close> (the target, with \<open>returnNode\<close>), whatever its descendants are. The
  result is \<open>false\<close> exactly when the condition holds neither on the target nor on any
  of its descendants. A missing target or a condition that is not a function gives
  \<open>false\<close>.
\<close>

theorem ddmc_tests_target_itself:
  "(condition n \<longrightarrow>
      doesDescendantMatchCondition (Some n) (Some condition) returnNode
        = (if returnNode then RNode n else RTrue))
   \<and> (doesDescendantMatchCondition (Some n) (Some condition) returnNode = RFalse
        \<longleftrightarrow> (\<forall>m \<in> set (subnodes n). \<not> condition m))
   \<and> doesDescendantMatchCondition None c returnNode = RFalse
   \<and> doesDescendantMatchCondition t None returnNode = RFalse"
proof -
  have "doesDescendantMatchCondition (Some n) (Some condition) returnNode
          = ddmc_loop condition returnNode [n]"
    by (simp add: doesDescendantMatchCondition_def del: ddmc_loop.simps)
  with ddmc_loop_false_iff [of condition returnNode "[n]"]
  have "doesDescendantMatchCondition (Some n) (Some condition) returnNode = RFalse
        \<longleftrightarrow> (\<forall>m \<in> set (subnodes n). \<not> condition m)"
    by simp
  then show ?thesis
    by (auto simp: doesDescendantMatchCondition_def split: option.splits)
qed

theorem ddmc_tests_target_itself_witness:
  "is_literal literal_1
   \<and> doesDescendantMatchCondition (Some literal_1) (Some is_literal) False = RTrue
   \<and> doesDescendantMatchCondition (Some literal_1) (Some is_literal) True = RNode literal_1
   \<and> a_call True \<in> set (subnodes (a_statement True))
   \<and> is_marked (a_call True)
   \<and> doesDescendantMatchCondition (Some (a_statement True)) (Some is_marked) False \<noteq> RFalse"
proof -
  have h: "is_literal literal_1"
    by (simp add: is_literal_def literal_1_def blank_def)
  have m: "a_call True \<in> set (subnodes (a_statement True))"
    by (simp add: a_statement_def a_call_def)
  have k: "is_marked (a_call True)"
    by (simp add: is_marked_def a_call_def)
  from ddmc_tests_target_itself [of is_literal literal_1 False] h
  have r1: "doesDescendantMatchCondition (Some literal_1) (Some is_literal) False = RTrue"
    by simp
  from ddmc_tests_target_itself [of is_literal literal_1 True] h
  have r2: "doesDescendantMatchCondition (Some literal_1) (Some is_literal) True
              = RNode literal_1"
    by simp
  from ddmc_tests_target_itself [of is_marked "a_statement True" False] m k
  have r3: "doesDescendantMatchCondition (Some (a_statement True)) (Some is_marked) False
              \<noteq> RFalse"
    by blast
  show ?thesis by (intro conjI h r1 r2 m k r3)
qed

section \<open>Properties of createNewNode\<close>

lemma createNewNode_VPrim_not_BAD: "createNewNode pc (VPrim v) \<noteq> BAD_VALUE"
  by (subst createNewNode.simps(2)) simp

lemma createNewNode_clean: "createNewNode pc v = BAD_VALUE \<or> clean (createNewNode pc v)"
proof (induction pc v rule: createNewNode.induct)
  case (1 parseCode n)
  show ?case by (simp add: createNewNode.simps(1))
next
  case (2 parseCode v)
  let ?s = "String v"
  let ?c1 = "?s \<noteq> [] \<and> hd ?s \<in> set ''-+!'' \<and> length ?s > 1"
  let ?c2 = "parseInt_isNaN (tl ?s) \<and> tl ?s \<notin> {''Infinity'', ''NaN''}"
  have zero: "createNewNode parseCode (VPrim (PNumber (Num ''0''))) = Literal (PNumber (Num ''0'')) ''0''"
    by (subst createNewNode.simps(2)) simp
  have "clean (createNewNode parseCode (VPrim v))"
  proof (cases ?c1)
    case c1: True
    show ?thesis
    proof (cases ?c2)
      case True
      have "createNewNode parseCode (VPrim v) = Literal v ?s"
        by (subst createNewNode.simps(2), subst if_P [OF c1], subst if_P [OF True], rule refl)
      then show ?thesis by simp
    next
      case False
      have "createNewNode parseCode (VPrim v)
              = UnaryExpression [hd ?s] (createNewNode parseCode (VPrim (PString (tl ?s))))"
        by (subst createNewNode.simps(2), subst if_P [OF c1], subst if_not_P [OF False], rule refl)
      moreover have "clean (createNewNode parseCode (VPrim (PString (tl ?s))))"
        using 2(1) [OF c1 False] createNewNode_VPrim_not_BAD by blast
      ultimately show ?thesis by simp
    qed
  next
    case c1: False
    show ?thesis
    proof (cases "?s \<in> {''Infinity'', ''NaN''}")
      case True
      have "createNewNode parseCode (VPrim v) = Identifier ?s"
        by (subst createNewNode.simps(2), subst if_not_P [OF c1], subst if_P [OF True], rule refl)
      then show ?thesis by simp
    next
      case c3: False
      show ?thesis
      proof (cases "v = PNumber NegZero")
        case True
        have "createNewNode parseCode (VPrim v)
                = UnaryExpression ''-'' (createNewNode parseCode (VPrim (PNumber (Num ''0''))))"
          by (subst createNewNode.simps(2), subst if_not_P [OF c1], subst if_not_P [OF c3],
              subst if_P [OF True], rule refl)
        then show ?thesis by (simp add: zero)
      next
        case False
        have "createNewNode parseCode (VPrim v) = Literal v ?s"
          by (subst createNewNode.simps(2), subst if_not_P [OF c1], subst if_not_P [OF c3],
              subst if_not_P [OF False], rule refl)
        then show ?thesis by simp
      qed
    qed
  qed
  then show ?case ..
next
  case (3 parseCode xs)
  show ?case
  proof (cases "BAD_VALUE \<in> set (map (createNewNode parseCode) xs)")
    case True
    then show ?thesis by (simp add: createNewNode_VArray)
  next
    case False
    have "clean (createNewNode parseCode x)" if "x \<in> set xs" for x
      using that False 3(1) [OF that] by force
    with False show ?thesis by (simp add: list_all_iff createNewNode_VArray)
  qed
next
  case (4 parseCode es)
  let ?bad = "\<exists>e \<in> set es. createNewNode parseCode (VPrim (PString (fst e))) = BAD_VALUE
                        \<or> createNewNode parseCode (snd e) = BAD_VALUE"
  show ?case
  proof (cases ?bad)
    case True
    then show ?thesis by (simp add: createNewNode_VObject)
  next
    case False
    have "clean (createNewNode parseCode (VPrim (PString (fst e))))
          \<and> clean (createNewNode parseCode (snd e))" if "e \<in> set es" for e
      using that False 4(1) [OF that] 4(2) [OF that] by blast
    with False show ?thesis by (simp add: list_all_iff createNewNode_VObject)
  qed
next
  case (5 parseCode)
  show ?case by (simp add: createNewNode.simps(5))
next
  case (6 parseCode)
  show ?case by (simp add: createNewNode.simps(6))
next
  case (7 parseCode i)
  show ?case by (simp add: createNewNode.simps(7))
next
  case (8 parseCode d)
  show ?case
  proof (cases d)
    case None
    then show ?thesis by (simp add: createNewNode.simps(8))
  next
    case (Some symbolDesc)
    show ?thesis
    proof (cases "symbolDesc = []")
      case True
      with Some show ?thesis by (simp add: createNewNode.simps(8))
    next
      case False
      from 8 [OF Some False] createNewNode_VPrim_not_BAD
      have "clean (createNewNode parseCode (VPrim (PString symbolDesc)))" by blast
      with Some False show ?thesis by (simp add: createNewNode.simps(8))
    qed
  qed
next
  case (9 parseCode s)
  show ?case by (simp add: createNewNode.simps(9) split: parse_outcome.splits list.splits)
next
  case (10 parseCode pattern flags)
  show ?case by (simp add: createNewNode.simps(10))
next
  case (11 parseCode t)
  show ?case by (simp add: createNewNode.simps(11))
qed

lemma nested_bad:
  "w \<in> set (nested v) \<Longrightarrow> createNewNode pc w = BAD_VALUE \<Longrightarrow> createNewNode pc v = BAD_VALUE"
proof (induction v rule: nested.induct)
  case (1 xs)
  show ?case
  proof (cases "w = VArray xs")
    case True
    with 1 show ?thesis by simp
  next
    case False
    with 1(2) obtain x where x: "x \<in> set xs" "w \<in> set (nested x)" by auto
    from 1(1) [OF x 1(3)] x(1) have "BAD_VALUE \<in> set (map (createNewNode pc) xs)" by force
    then show ?thesis by (simp add: createNewNode_VArray)
  qed
next
  case (2 es)
  show ?case
  proof (cases "w = VObject es")
    case True
    with 2 show ?thesis by simp
  next
    case False
    with 2(2) obtain e where e: "e \<in> set es"
      and w: "w = VPrim (PString (fst e)) \<or> w \<in> set (nested (snd e))" by auto
    from w have "createNewNode pc (VPrim (PString (fst e))) = BAD_VALUE
                 \<or> createNewNode pc (snd e) = BAD_VALUE"
    proof
      assume "w = VPrim (PString (fst e))"
      with 2(3) show ?thesis by simp
    next
      assume "w \<in> set (nested (snd e))"
      from 2(1) [OF e this 2(3)] show ?thesis by simp
    qed
    with e show ?thesis by (auto simp: createNewNode_VObject)
  qed
qed auto

text \<open>
  C8. \<open>createNewNode\<close> fails closed: its result is \<open>BAD_VALUE\<close> or a node in which
  \<open>BAD_VALUE\<close> occurs nowhere, and when the conversion of anything nested in an array
  or object (an element, a key, a property value, at any depth) is \<open>BAD_VALUE\<close>, the
  conversion of the whole value is \<open>BAD_VALUE\<close>.
\<close>

theorem createNewNode_fails_closed:
  "(createNewNode pc v = BAD_VALUE \<or> clean (createNewNode pc v))
   \<and> (w \<in> set (nested v) \<and> createNewNode pc w = BAD_VALUE \<longrightarrow> createNewNode pc v = BAD_VALUE)"
  using createNewNode_clean nested_bad by blast

theorem createNewNode_fails_closed_witness:
  "native_max \<in> set (nested array_with_native)
   \<and> createNewNode no_parser native_max = BAD_VALUE
   \<and> createNewNode no_parser array_with_native = BAD_VALUE
   \<and> createNewNode no_parser (VArray [VPrim (PNumber (Num ''-3'')), VPrim (PString ''a'')])
       = ArrayExpression [UnaryExpression ''-'' (Literal (PString ''3'') ''3''),
                          Literal (PString ''a'') ''a'']
   \<and> clean (createNewNode no_parser (VArray [VPrim (PNumber (Num ''-3'')), VPrim (PString ''a'')]))"
proof -
  have m: "native_max \<in> set (nested array_with_native)"
    by (simp add: array_with_native_def native_max_def)
  have b: "createNewNode no_parser native_max = BAD_VALUE"
    by (simp add: native_max_def no_parser_def createNewNode.simps(9))
  have a: "createNewNode no_parser (VArray [VPrim (PNumber (Num ''-3'')), VPrim (PString ''a'')])
       = ArrayExpression [UnaryExpression ''-'' (Literal (PString ''3'') ''3''),
                          Literal (PString ''a'') ''a'']"
    by (simp add: createNewNode.simps parseInt_isNaN_def is_space_def is_digit_def)
  from createNewNode_fails_closed [of no_parser array_with_native native_max] m b
  have bad: "createNewNode no_parser array_with_native = BAD_VALUE" by blast
  from createNewNode_fails_closed
         [of no_parser "VArray [VPrim (PNumber (Num ''-3'')), VPrim (PString ''a'')]" VNull]
  have "createNewNode no_parser (VArray [VPrim (PNumber (Num ''-3'')), VPrim (PString ''a'')])
          = BAD_VALUE
        \<or> clean (createNewNode no_parser
                   (VArray [VPrim (PNumber (Num ''-3'')), VPrim (PString ''a'')]))"
    by (rule conjunct1)
  then have cl: "clean (createNewNode no_parser
                   (VArray [VPrim (PNumber (Num ''-3'')), VPrim (PString ''a'')]))"
    unfolding a by simp
  show ?thesis by (intro conjI m b bad a cl)
qed

section \<open>Properties of evalInVm\<close>

lemma neutralize_while_true_safe: "neutralize while_true_safe = while_0_safe"
  by (simp add: while_true_safe_def while_0_safe_def neutralize_def TRAP_STRINGS_def
      while_trap_def debugger_trap_def split_debugger_trap_def sq_def dq_def to_lower_def
      match_quote_def match_true_or_number_def match_number_def is_space_def is_digit_def)



lemma keys_safe: "Object_keys (VPrim (PString ''safe'')) = Some [''0'', ''1'', ''2'', ''3'']"
  by (simp add: upt_rec)

lemma sort_0123: "concat (sort [''0'', ''1'', ''2'', ''3'']) = ''0123''"
  by simp

lemma evalInVm_hit:
  "cache (''eval-'' @ generateHash h f) = Some e \<Longrightarrow> evalInVm h f sb cache = (e, cache)"
  by (simp add: evalInVm_def)

lemma evalInVm_miss:
  "cache (''eval-'' @ generateHash h f) = None \<Longrightarrow>
   evalInVm h f sb cache
     = ((case try_block h f sb of Inr (Some r) \<Rightarrow> r | _ \<Rightarrow> Converted BAD_VALUE),
        (if MAX_CACHE_SIZE \<le> card (dom cache) then Map.empty else cache)
          (''eval-'' @ generateHash h f \<mapsto>
             (case try_block h f sb of Inr (Some r) \<Rightarrow> r | _ \<Rightarrow> Converted BAD_VALUE)))"
  by (simp add: evalInVm_def Let_def)


lemma try_block_while_true_safe:
  assumes sandbox: "(case sb of Some v \<Rightarrow> Some v | None \<Rightarrow> new_Sandbox h) = Some vm"
    and run: "vm (''delete Math.random; delete Date;'' @ [nl, nl] @ while_0_safe)
                = Returned (Reference objType (Some (VPrim (PString ''safe''))))"
    and type: "objType \<notin> set BAD_TYPES"
    and console: "concat (sort (console_keys h)) \<noteq> ''0123''"
                 "concat (drop 1 (sort (console_keys h))) \<noteq> ''0123''"
  shows "try_block h while_true_safe sb
           = Inr (Some (Converted (Literal (PString ''safe'') ''safe'')))"
proof -
  have m: "MATCHING_OBJECT_KEYS h ''0123'' = None"
    using console by (simp add: MATCHING_OBJECT_KEYS_def Object_prototype_keys_def)
  have c: "createNewNode (parseCode h) (VPrim (PString ''safe''))
             = Literal (PString ''safe'') ''safe''"
    by (subst createNewNode.simps(2)) simp
  show ?thesis
    using sandbox run type
    by (simp add: try_block_def Sandbox_run_def neutralize_while_true_safe keys_safe sort_0123 m c
        del: Object_keys.simps)
qed


text \<open>
  C9, as the code has it. The text \<open>while(true) {}; 'safe'\<close> is rewritten to
  \<open>while (0) {}; 'safe'\<close> before it reaches the sandbox. So when the cache holds no entry
  for the text and the isolate returns the string \<open>safe\<close> for the rewritten script,
  \<open>evalInVm\<close> returns the literal \<open>safe\<close> and stores it, whatever the isolate would do
  with the original loop; and when the cache holds an entry for the text, that entry is
  returned and nothing is evaluated. The isolate and the host's \<open>console\<close> are not code
  of this repository: what they do here is assumed (the returned reference is not tagged
  \<open>Promise\<close>, and \<open>0123\<close>, the joined keys of a four-character string, is not the key
  signature of \<open>console\<close>).
\<close>

theorem evalInVm_neutralizes_while_true:
  assumes sandbox: "new_Sandbox h = Some vm"
    and run: "vm (''delete Math.random; delete Date;'' @ [nl, nl] @ while_0_safe)
                = Returned (Reference objType (Some (VPrim (PString ''safe''))))"
    and type: "objType \<notin> set BAD_TYPES"
    and console: "concat (sort (console_keys h)) \<noteq> ''0123''"
                 "concat (drop 1 (sort (console_keys h))) \<noteq> ''0123''"
  shows "neutralize while_true_safe = while_0_safe
       \<and> (cache (''eval-'' @ generateHash h while_true_safe) = None
          \<longrightarrow> fst (evalInVm h while_true_safe None cache)
                = Converted (Literal (PString ''safe'') ''safe'')
              \<and> snd (evalInVm h while_true_safe None cache)
                    (''eval-'' @ generateHash h while_true_safe)
                  = Some (Converted (Literal (PString ''safe'') ''safe'')))
       \<and> (\<forall>entry. cache (''eval-'' @ generateHash h while_true_safe) = Some entry
          \<longrightarrow> evalInVm h while_true_safe None cache = (entry, cache))"
proof -
  from sandbox have "(case None of Some v \<Rightarrow> Some v | None \<Rightarrow> new_Sandbox h) = Some vm"
    by simp
  from try_block_while_true_safe [OF this run type console]
  show ?thesis
    by (simp add: neutralize_while_true_safe evalInVm_miss evalInVm_hit)
qed

theorem evalInVm_neutralizes_while_true_witness:
  "new_Sandbox example_host = Some example_isolate
   \<and> example_isolate (''delete Math.random; delete Date;'' @ [nl, nl] @ while_0_safe)
        = Returned (Reference ''Object'' (Some (VPrim (PString ''safe''))))
   \<and> ''Object'' \<notin> set BAD_TYPES
   \<and> concat (sort (console_keys example_host)) \<noteq> ''0123''
   \<and> concat (drop 1 (sort (console_keys example_host))) \<noteq> ''0123''
   \<and> example_isolate (''delete Math.random; delete Date;'' @ [nl, nl] @ while_true_safe) = Throws
   \<and> fst (evalInVm example_host while_true_safe None Map.empty)
        = Converted (Literal (PString ''safe'') ''safe'')
   \<and> evalInVm example_host while_true_safe None
        [''eval-'' @ while_true_safe \<mapsto> Converted (Identifier ''console'')]
        = (Converted (Identifier ''console''),
           [''eval-'' @ while_true_safe \<mapsto> Converted (Identifier ''console'')])"
proof -
  have sandbox: "new_Sandbox example_host = Some example_isolate"
    by (simp add: example_host_def)
  have run: "example_isolate (''delete Math.random; delete Date;'' @ [nl, nl] @ while_0_safe)
               = Returned (Reference ''Object'' (Some (VPrim (PString ''safe''))))"
    by (simp add: example_isolate_def)
  have type: "''Object'' \<notin> set BAD_TYPES"
    by (simp add: BAD_TYPES_def)
  have c1: "concat (sort (console_keys example_host)) \<noteq> ''0123''"
    by (simp add: example_host_def)
  have c2: "concat (drop 1 (sort (console_keys example_host))) \<noteq> ''0123''"
    by (simp add: example_host_def)
  have timeout: "example_isolate (''delete Math.random; delete Date;'' @ [nl, nl] @ while_true_safe)
                   = Throws"
    by (simp add: example_isolate_def while_true_safe_def while_0_safe_def object_valueOf_def)
  have hash: "generateHash example_host while_true_safe = while_true_safe"
    by (simp add: generateHash_def example_host_def)
  note miss = evalInVm_neutralizes_while_true [OF sandbox run type c1 c2, of Map.empty]
  note hit = evalInVm_neutralizes_while_true [OF sandbox run type c1 c2,
      of "[''eval-'' @ while_true_safe \<mapsto> Converted (Identifier ''console'')]"]
  have r1: "fst (evalInVm example_host while_true_safe None Map.empty)
              = Converted (Literal (PString ''safe'') ''safe'')"
    using miss by simp
  have r2: "evalInVm example_host while_true_safe None
              [''eval-'' @ while_true_safe \<mapsto> Converted (Identifier ''console'')]
            = (Converted (Identifier ''console''),
               [''eval-'' @ while_true_safe \<mapsto> Converted (Identifier ''console'')])"
    using hit by (simp add: hash)
  show ?thesis by (intro conjI sandbox run type c1 c2 timeout r1 r2)
qed

text \<open>
  C9, as the claim states it, fails when the cache holds an entry for the text. The key
  of an entry is the hash of the text alone: after a call on the text with a sandbox
  that has been disposed of, which stores \<open>BAD_VALUE\<close>, the call without a sandbox
  returns \<open>BAD_VALUE\<close>, although a new sandbox would return \<open>safe\<close>.
\<close>

theorem evalInVm_returns_stored_BAD_VALUE:
  "fst (evalInVm example_host while_true_safe (Some dead_isolate) Map.empty) = Converted BAD_VALUE
   \<and> fst (evalInVm example_host while_true_safe None
            (snd (evalInVm example_host while_true_safe (Some dead_isolate) Map.empty)))
       = Converted BAD_VALUE"
proof -
  have 1: "evalInVm example_host while_true_safe (Some dead_isolate) Map.empty
             = (Converted BAD_VALUE,
                [''eval-'' @ generateHash example_host while_true_safe \<mapsto> Converted BAD_VALUE])"
    by (simp add: evalInVm_miss try_block_def Sandbox_run_def dead_isolate_def MAX_CACHE_SIZE_def)
  then show ?thesis by (simp add: evalInVm_hit)
qed

text \<open>
  When the \<open>try\<close> block throws, as it does when the sandbox throws, times out or runs
  out of memory, the entry stays \<open>BAD_VALUE\<close>; and a second call with the same text
  returns the entry of the first, whatever sandbox it is given.
\<close>

lemma try_block_Throws:
  "new_Sandbox h = Some vm \<Longrightarrow> Sandbox_run vm (neutralize f) = Throws
   \<Longrightarrow> try_block h f None = Inl Thrown \<and> try_block h f (Some vm) = Inl Thrown"
  by (simp add: try_block_def)

lemma evalInVm_Thrown:
  "cache (''eval-'' @ generateHash h f) = None \<Longrightarrow> try_block h f sb = Inl Thrown
   \<Longrightarrow> fst (evalInVm h f sb cache) = Converted BAD_VALUE"
  by (simp add: evalInVm_def Let_def)

lemma evalInVm_repeat:
  "evalInVm h f sb' (snd (evalInVm h f sb cache))
     = (fst (evalInVm h f sb cache), snd (evalInVm h f sb cache))"
  by (auto simp: evalInVm_def Let_def split: option.splits)

text \<open>
  C3 at the fragment \<open>({valueOf: 1})\<close>, never evaluated before. The isolate returns a
  reference to an object whose only key is \<open>valueOf\<close>; the read
  \<open>MATCHING_OBJECT_KEYS['valueOf']\<close> finds \<open>Object.prototype.valueOf\<close>, which is
  truthy, and that function is stored and returned: neither a node nor \<open>BAD_VALUE\<close>.
\<close>

theorem evalInVm_not_node_nor_BAD_VALUE:
  "evalInVm example_host object_valueOf None Map.empty
     = (Inherited ''valueOf'', [''eval-'' @ object_valueOf \<mapsto> Inherited ''valueOf''])"
  by (simp add: evalInVm_def Let_def generateHash_def example_host_def try_block_def Sandbox_run_def
      example_isolate_def object_valueOf_def while_0_safe_def neutralize_def TRAP_STRINGS_def
      while_trap_def debugger_trap_def split_debugger_trap_def sq_def dq_def nl_def to_lower_def
      match_quote_def match_true_or_number_def match_number_def is_space_def is_digit_def
      BAD_TYPES_def MATCHING_OBJECT_KEYS_def Object_prototype_keys_def)
















section \<open>Properties of getDeclarationWithContext\<close>

lemmas example_nodes = a_ast_def a_program_def a_statement_def a_call_def a_callee_def
  f_ast_def f_program_def f_declaration_def f_id_def f_body_def in_script_def blank_def
  g_ast_def g_program_def g_declaration_def g_id_def g_body_def g_statement_def
  g_assignment_def g_left_def g_right_def

lemmas collector_defs = getDeclarationWithContext_def cached_context_def cacheNameId_def
  cacheNameSrc_def generateHash_def getCache_def new_object_def obj_get_def obj_set_def
  removeRedundantNodes_def isNodeInRanges_def relatives_def visit_target_def addToStack_def
  doesDescendantMatchCondition_def is_marked_def deref_def deref_all_def List.map_filter_def
  parentNode_def parentKey_def id_references_def plain_reassignment_def collect_loop.simps
  isNodeAnAssignmentToProperty_def isConsequentOrAlternate_def ref_targets_def
  TYPES_TO_COLLECT_def IRRELEVANT_FILTER_TYPES_def SKIP_TRAVERSAL_TYPES_def
  IF_STATEMENT_KEYS_def STANDALONE_WRAPPER_TYPES_def Let_def


lemma collect_f:
  "fst (getDeclarationWithContext some_PROPERTIES example_host f_ast (Some f_declaration)
          False initial_cache) = Value [f_declaration]"
  by (simp add: collector_defs example_nodes initial_cache_def example_host_def)

lemma collect_g:
  "fst (getDeclarationWithContext some_PROPERTIES example_host g_ast (Some g_declaration)
          False initial_cache) = Value []"
  by (simp add: collector_defs example_nodes initial_cache_def example_host_def)





lemma filter_collected_set:
  "set (filter_collected ast e origin cs acc)
   = set acc \<union> {n \<in> set cs. type (attrs n) \<notin> set IRRELEVANT_FILTER_TYPES
        \<and> \<not> (e \<and> isNodeInRanges n [range_of (attrs origin)])
        \<and> \<not> (type (attrs n) = ''FunctionDeclaration'' \<and> id_references ast n \<noteq> []
             \<and> (\<forall>r \<in> set (id_references ast n). plain_reassignment ast r))}"
proof (induction cs arbitrary: acc)
  case Nil
  then show ?case by simp
next
  case (Cons n cs)
  show ?case by (auto simp: Cons.IH)
qed

lemma removeRedundantNodes_subset: "set (removeRedundantNodes ns) \<subseteq> set ns"
  by (auto simp: removeRedundantNodes_def)

text \<open>
  C4, as the code has it. A function declaration with at least one reference to its
  name, all of them plain reassignments, is not in the result. A collected function
  declaration that has a reference of another kind, or no reference at all, and that is
  not excluded with the origin node, passes this filter (the removal of nodes contained
  in other nodes comes after it).
\<close>

theorem anti_overwrite_rule:
  assumes fd: "type (attrs n) = ''FunctionDeclaration''"
  shows "(id_references ast n \<noteq> [] \<and> (\<forall>r \<in> set (id_references ast n). plain_reassignment ast r)
            \<longrightarrow> n \<notin> set (removeRedundantNodes
                          (filter_collected ast excludeOriginNode origin collected [])))
       \<and> (n \<in> set collected
            \<and> \<not> (excludeOriginNode \<and> isNodeInRanges n [range_of (attrs origin)])
            \<and> \<not> (id_references ast n \<noteq> []
                  \<and> (\<forall>r \<in> set (id_references ast n). plain_reassignment ast r))
            \<longrightarrow> n \<in> set (filter_collected ast excludeOriginNode origin collected []))"
proof -
  have irr: "type (attrs n) \<notin> set IRRELEVANT_FILTER_TYPES"
    using fd by (simp add: IRRELEVANT_FILTER_TYPES_def)
  show ?thesis
    using removeRedundantNodes_subset
            [of "filter_collected ast excludeOriginNode origin collected []"] irr fd
    unfolding filter_collected_set by auto
qed

theorem anti_overwrite_rule_witness:
  "type (attrs g_declaration) = ''FunctionDeclaration''
   \<and> id_references g_ast g_declaration = [g_left]
   \<and> plain_reassignment g_ast g_left
   \<and> g_declaration \<notin> set (removeRedundantNodes
                             (filter_collected g_ast False g_declaration [g_declaration] []))
   \<and> fst (getDeclarationWithContext some_PROPERTIES example_host g_ast (Some g_declaration)
            False initial_cache) = Value []
   \<and> type (attrs f_declaration) = ''FunctionDeclaration''
   \<and> id_references f_ast f_declaration = []
   \<and> f_declaration \<in> set (filter_collected f_ast False f_declaration [f_declaration] [])"
proof -
  have tg: "type (attrs g_declaration) = ''FunctionDeclaration''"
    by (simp add: g_declaration_def in_script_def blank_def)
  have rg: "id_references g_ast g_declaration = [g_left]"
    by (simp add: id_references_def deref_def deref_all_def List.map_filter_def g_ast_def
        g_declaration_def g_id_def in_script_def blank_def)
  have pg: "plain_reassignment g_ast g_left"
    by (simp add: plain_reassignment_def parentKey_def parentNode_def deref_def g_ast_def
        g_left_def g_assignment_def in_script_def blank_def)
  have tf: "type (attrs f_declaration) = ''FunctionDeclaration''"
    by (simp add: f_declaration_def in_script_def blank_def)
  have rf: "id_references f_ast f_declaration = []"
    by (simp add: id_references_def deref_def deref_all_def List.map_filter_def f_ast_def
        f_declaration_def f_id_def in_script_def blank_def)
  note g = anti_overwrite_rule [OF tg, of g_ast False g_declaration "[g_declaration]"]
  note f = anti_overwrite_rule [OF tf, of f_ast False f_declaration "[f_declaration]"]
  from g rg pg
  have dg: "g_declaration \<notin> set (removeRedundantNodes
              (filter_collected g_ast False g_declaration [g_declaration] []))"
    by simp
  from f rf
  have kf: "f_declaration \<in> set (filter_collected f_ast False f_declaration [f_declaration] [])"
    by simp
  show ?thesis by (intro conjI tg rg pg dg collect_g tf rf kf)
qed

text \<open>
  C4, as the claim states it, fails for a function that is never referenced: every
  reference to \<open>f\<close> in \<open>function f() {}\<close> is a plain reassignment, there being none,
  and no call site exists, yet the declaration is in the result.
\<close>

theorem unreferenced_function_is_kept:
  "type (attrs f_declaration) = ''FunctionDeclaration''
   \<and> list_all (plain_reassignment f_ast) (id_references f_ast f_declaration)
   \<and> fst (getDeclarationWithContext some_PROPERTIES example_host f_ast (Some f_declaration)
            False initial_cache) = Value [f_declaration]"
proof -
  have tf: "type (attrs f_declaration) = ''FunctionDeclaration''"
    by (simp add: f_declaration_def in_script_def blank_def)
  have rf: "id_references f_ast f_declaration = []"
    by (simp add: id_references_def deref_def deref_all_def List.map_filter_def f_ast_def
        f_declaration_def f_id_def in_script_def blank_def)
  have pf: "list_all (plain_reassignment f_ast) (id_references f_ast f_declaration)"
    by (simp add: rf)
  show ?thesis by (intro conjI tf pf collect_f)
qed

section \<open>Properties of createOrderedSrc\<close>

lemmas ordered_defs = createOrderedSrc_def current_node_def addNameToFE_def parent_id_name_def
  replace_FUNC_START_def set_nodeId_def parent_ref_def maxArgNodeId_def nodeId_at_def
  LARGE_NUMBER_def TYPES_REQUIRING_SEMICOLON_def parsed_program_def obj_def iife_heap_def
  parsing_host_def example_host_def any_parser_def Let_def

lemma evolves_refl: "evolves st st"
  unfolding evolves_def
proof (intro conjI allI impI)
  fix a n assume "nodes st a = Some n"
  then have "nodes st a = Some (n\<lparr>nodeId := nodeId n\<rparr>)" by simp
  then show "\<exists>i. nodes st a = Some (n\<lparr>nodeId := i\<rparr>)
                \<and> (type n \<noteq> ''ExpressionStatement'' \<longrightarrow> i = nodeId n)" by blast
qed simp_all

lemma evolves_trans:
  assumes 1: "evolves st st'" and 2: "evolves st' st''"
  shows "evolves st st''"
  unfolding evolves_def
proof (intro conjI allI impI)
  show "fresh st \<le> fresh st''" using 1 2 by (simp add: evolves_def)
next
  fix a assume a: "a < fresh st" and "nodes st a = None"
  with 1 have "nodes st' a = None" by (simp add: evolves_def)
  moreover from a 1 have "a < fresh st'" by (simp add: evolves_def)
  ultimately show "nodes st'' a = None" using 2 by (simp add: evolves_def)
next
  fix a n assume a: "a < fresh st" and n: "nodes st a = Some n"
  from 1 a n obtain i where i: "nodes st' a = Some (n\<lparr>nodeId := i\<rparr>)"
    "type n \<noteq> ''ExpressionStatement'' \<longrightarrow> i = nodeId n"
    unfolding evolves_def by blast
  from a 1 have a': "a < fresh st'" by (simp add: evolves_def)
  from 2 a' i(1) obtain j where j: "nodes st'' a = Some (n\<lparr>nodeId := i\<rparr>\<lparr>nodeId := j\<rparr>)"
    "type (n\<lparr>nodeId := i\<rparr>) \<noteq> ''ExpressionStatement'' \<longrightarrow> j = nodeId (n\<lparr>nodeId := i\<rparr>)"
    unfolding evolves_def by blast
  from j(1) have "nodes st'' a = Some (n\<lparr>nodeId := j\<rparr>)" by simp
  moreover from i(2) j(2) have "type n \<noteq> ''ExpressionStatement'' \<longrightarrow> j = nodeId n" by simp
  ultimately show "\<exists>i. nodes st'' a = Some (n\<lparr>nodeId := i\<rparr>)
                \<and> (type n \<noteq> ''ExpressionStatement'' \<longrightarrow> i = nodeId n)" by blast
qed

text \<open>What a later store still shows of a node.\<close>

lemma evolves_Some:
  assumes "evolves st st'" "heap_wf st" "nodes st a = Some n"
  obtains i where "nodes st' a = Some (n\<lparr>nodeId := i\<rparr>)"
    "type n \<noteq> ''ExpressionStatement'' \<Longrightarrow> i = nodeId n"
proof -
  from assms(2,3) have "a < fresh st" by (auto simp: heap_wf_def)
  with assms(1,3) that show thesis unfolding evolves_def by blast
qed

lemma evolves_None:
  assumes "evolves st st'" "a < fresh st" "nodes st a = None"
  shows "nodes st' a = None"
  using assms unfolding evolves_def by blast

lemma evolves_same:
  assumes "evolves st st'" "heap_wf st" "nodes st a = Some n" "type n \<noteq> ''ExpressionStatement''"
  shows "nodes st' a = Some n"
proof -
  from evolves_Some [OF assms(1-3)] obtain i where "nodes st' a = Some (n\<lparr>nodeId := i\<rparr>)"
    "type n \<noteq> ''ExpressionStatement'' \<Longrightarrow> i = nodeId n" by blast
  with assms(4) show ?thesis by simp
qed

lemma heap_wf_addr: "heap_wf st \<Longrightarrow> nodes st a = Some n \<Longrightarrow> a < fresh st"
  unfolding heap_wf_def by blast

lemma heap_wf_parent:
  "heap_wf st \<Longrightarrow> nodes st a = Some n \<Longrightarrow> parent n = Some pk \<Longrightarrow> fst pk < fresh st"
  unfolding heap_wf_def parent_ref_def by fastforce

lemma heap_wf_id: "heap_wf st \<Longrightarrow> nodes st a = Some n \<Longrightarrow> id_of n = Some l \<Longrightarrow> l < fresh st"
  unfolding heap_wf_def by blast

lemma heap_wf_callee:
  "heap_wf st \<Longrightarrow> nodes st a = Some n \<Longrightarrow> callee n = Some l \<Longrightarrow> l < fresh st"
  unfolding heap_wf_def by blast

lemma evolves_parent_id_name:
  assumes e: "evolves st st'" and wf: "heap_wf st" and n: "nodes st r = Some n"
  shows "parent_id_name st' n = parent_id_name st n"
proof (cases "parent n")
  case None
  then show ?thesis by (simp add: parent_id_name_def)
next
  case (Some pk)
  from heap_wf_parent [OF wf n Some] have lt: "fst pk < fresh st" .
  show ?thesis
  proof (cases "nodes st (fst pk)")
    case None
    with evolves_None [OF e lt] Some show ?thesis by (simp add: parent_id_name_def)
  next
    case p: (Some p)
    from evolves_Some [OF e wf p] obtain i where p': "nodes st' (fst pk) = Some (p\<lparr>nodeId := i\<rparr>)"
      by blast
    show ?thesis
    proof (cases "id_of p")
      case None
      with Some p p' show ?thesis by (simp add: parent_id_name_def)
    next
      case idp: (Some l)
      from heap_wf_id [OF wf p idp] have ll: "l < fresh st" .
      show ?thesis
      proof (cases "nodes st l")
        case None
        with evolves_None [OF e ll] Some p p' idp show ?thesis by (simp add: parent_id_name_def)
      next
        case x: (Some x)
        from evolves_Some [OF e wf x] obtain j where "nodes st' l = Some (x\<lparr>nodeId := j\<rparr>)"
          by blast
        with Some p p' idp x show ?thesis by (simp add: parent_id_name_def)
      qed
    qed
  qed
qed

lemma and_then_Value: "and_then x f = Value y \<longleftrightarrow> (\<exists>a. x = Value a \<and> f a = Value y)"
  by (cases x) auto

lemma non_null_Value: "non_null x = Value a \<longleftrightarrow> x = Some a"
  by (cases x) auto

lemma addNameToFE_cases:
  "addNameToFE h n nm st = (None, st) \<or> (\<exists>st2. addNameToFE h n nm st = (Some (fresh st), st2))"
  by (auto simp: addNameToFE_def Let_def split: parse_outcome.splits)

lemma addNameToFE_None:
  "addNameToFE h n nm st = (None, st2) \<Longrightarrow> addNameToFE h n nm st' = (None, st')"
  by (auto simp: addNameToFE_def Let_def split: parse_outcome.splits)

lemma settled_mono:
  assumes e: "evolves st st'" and wf: "heap_wf st" and s: "settled h po st r"
  shows "settled h po st' r"
proof -
  from s have cn: "current_node h po r st = Value (r, st)" by (simp add: settled_def)
  then obtain n where n: "nodes st r = Some n"
    by (cases "nodes st r") (auto simp: current_node_def)
  from heap_wf_addr [OF wf n] have r: "r < fresh st" .
  show ?thesis
  proof (cases "type n = ''ExpressionStatement''")
    case True
    from evolves_Some [OF e wf n] obtain i where "nodes st' r = Some (n\<lparr>nodeId := i\<rparr>)" by blast
    with True show ?thesis by (simp add: settled_def current_node_def)
  next
    case nES: False
    from evolves_same [OF e wf n nES] have n': "nodes st' r = Some n" .
    show ?thesis
    proof (cases "type n = ''CallExpression''")
      case call: True
      from cn n call obtain pr where pr: "parent_ref n = Some pr"
        by (cases "parent_ref n") (auto simp: current_node_def)
      from cn n call pr obtain p where p: "nodes st pr = Some p"
        by (cases "nodes st pr") (auto simp: current_node_def)
      have pES: "type p \<noteq> ''ExpressionStatement''"
      proof
        assume ES: "type p = ''ExpressionStatement''"
        with cn n call pr p have "r = pr"
          by (auto simp: current_node_def and_then_Value non_null_Value split: if_splits)
        with n p call ES show False by simp
      qed
      from evolves_same [OF e wf p pES] have p': "nodes st' pr = Some p" .
      from cn n call pr p pES obtain c where c: "Option.bind (callee n) (nodes st) = Some c"
        by (cases "Option.bind (callee n) (nodes st)") (auto simp: current_node_def)
      then obtain cr where cr: "callee n = Some cr" "nodes st cr = Some c"
        by (auto simp: Option.bind_eq_Some_conv)
      from evolves_Some [OF e wf cr(2)] obtain j where "nodes st' cr = Some (c\<lparr>nodeId := j\<rparr>)"
        by blast
      with cr have c': "Option.bind (callee n) (nodes st') = Some (c\<lparr>nodeId := j\<rparr>)" by simp
      show ?thesis
      proof (cases "type c = ''FunctionExpression'' \<and> \<not> po")
        case True
        from addNameToFE_cases [of h n "parent_id_name st n" st]
        have "addNameToFE h n (parent_id_name st n) st = (None, st)"
        proof
          assume "\<exists>st2. addNameToFE h n (parent_id_name st n) st = (Some (fresh st), st2)"
          then obtain st2 where "addNameToFE h n (parent_id_name st n) st = (Some (fresh st), st2)" ..
          with cn n call pr p pES c True have "r = fresh st"
            by (simp add: current_node_def)
          with r show ?thesis by simp
        qed simp
        from addNameToFE_None [OF this, of st']
        have "addNameToFE h n (parent_id_name st' n) st' = (None, st')"
          by (simp add: evolves_parent_id_name [OF e wf n])
        with n' call pr p' pES c' True show ?thesis
          by (simp add: settled_def current_node_def)
      next
        case False
        with n' call pr p' pES c' show ?thesis
          by (auto simp: settled_def current_node_def)
      qed
    next
      case ncall: False
      show ?thesis
      proof (cases "type n = ''FunctionExpression'' \<and> id_of n = None")
        case True
        from addNameToFE_cases [of h n "parent_id_name st n" st]
        have "addNameToFE h n (parent_id_name st n) st = (None, st)"
        proof
          assume "\<exists>st2. addNameToFE h n (parent_id_name st n) st = (Some (fresh st), st2)"
          then obtain st2 where "addNameToFE h n (parent_id_name st n) st = (Some (fresh st), st2)" ..
          with cn n ncall True have "r = fresh st"
            by (simp add: current_node_def)
          with r show ?thesis by simp
        qed simp
        from addNameToFE_None [OF this, of st']
        have "addNameToFE h n (parent_id_name st' n) st' = (None, st')"
          by (simp add: evolves_parent_id_name [OF e wf n])
        with n' ncall True show ?thesis
          by (simp add: settled_def current_node_def)
      next
        case False
        with n' ncall show ?thesis
          by (auto simp: settled_def current_node_def)
      qed
    qed
  qed
qed

lemma settled_other:
  "nodes st r = Some n \<Longrightarrow> type n \<noteq> ''CallExpression'' \<Longrightarrow> type n \<noteq> ''FunctionExpression''
   \<Longrightarrow> settled h po st r"
  by (simp add: settled_def current_node_def)

text \<open>The three ways one round of the first loop ends.\<close>

lemma addNameToFE_Some:
  assumes "addNameToFE h n nm st = (Some a, st2)"
  shows "a = fresh st \<and> fresh st2 = Suc (fresh st)
         \<and> (\<exists>x. nodes st2 = (nodes st)(fresh st \<mapsto> x) \<and> type x = ''Program''
                \<and> parent x = None \<and> id_of x = None \<and> callee x = None)"
  using assms
  by (auto simp: addNameToFE_def Let_def parsed_program_def split: parse_outcome.splits)

lemma current_node_result:
  assumes "current_node h po r st = Value (r', st')"
  shows "(r' = r \<and> st' = st)
       \<or> (\<exists>p. nodes st r' = Some p \<and> type p = ''ExpressionStatement''
              \<and> (st' = st \<or> (\<exists>f. st' = set_nodeId r' f st)))
       \<or> (r' = fresh st \<and> fresh st' = Suc (fresh st)
           \<and> (\<exists>x. nodes st' = (nodes st)(fresh st \<mapsto> x) \<and> type x = ''Program''
                  \<and> parent x = None \<and> id_of x = None \<and> callee x = None))"
proof -
  from assms obtain n where n: "nodes st r = Some n"
    by (cases "nodes st r") (auto simp: current_node_def)
  show ?thesis
  proof (cases "type n = ''CallExpression''")
    case call: True
    from assms n call obtain pr p where pr: "parent_ref n = Some pr" and p: "nodes st pr = Some p"
      by (auto simp: current_node_def and_then_Value non_null_Value)
    show ?thesis
    proof (cases "type p = ''ExpressionStatement''")
      case True
      with assms n call pr p have "r' = pr \<and> (st' = st \<or> (\<exists>f. st' = set_nodeId pr f st))"
        by (auto simp: current_node_def and_then_Value non_null_Value split: if_splits)
      with p True show ?thesis by blast
    next
      case False
      with assms n call pr p obtain c where c: "Option.bind (callee n) (nodes st) = Some c"
        by (auto simp: current_node_def and_then_Value non_null_Value)
      show ?thesis
      proof (cases "type c = ''FunctionExpression'' \<and> \<not> po")
        case fe: True
        obtain a st2 where a: "addNameToFE h n (parent_id_name st n) st = (a, st2)"
          by (cases "addNameToFE h n (parent_id_name st n) st")
        show ?thesis
        proof (cases a)
          case None
          with a addNameToFE_cases [of h n "parent_id_name st n" st]
          have "addNameToFE h n (parent_id_name st n) st = (None, st)" by auto
          with assms n call pr p False c fe show ?thesis by (simp add: current_node_def)
        next
          case (Some nf)
          from addNameToFE_Some [OF a [unfolded Some]] obtain x where
            nf: "nf = fresh st" and fr: "fresh st2 = Suc (fresh st)"
            and x: "nodes st2 = (nodes st)(fresh st \<mapsto> x)" "type x = ''Program''"
              "parent x = None" "id_of x = None" "callee x = None"
            by blast
          from assms n call pr p False c fe a Some
          have res: "r' = nf" "st' = set_nodeId nf (\<lambda>i. i + LARGE_NUMBER) st2"
            by (auto simp: current_node_def)
          let ?x = "x\<lparr>nodeId := nodeId x + LARGE_NUMBER\<rparr>"
          from res nf x(1) have "nodes st' = (nodes st)(fresh st \<mapsto> ?x)"
            by (simp add: set_nodeId_def)
          moreover from res fr have "fresh st' = Suc (fresh st)" by (simp add: set_nodeId_def)
          moreover from x have "type ?x = ''Program''" "parent ?x = None" "id_of ?x = None"
            "callee ?x = None" by simp_all
          ultimately show ?thesis using res(1) nf by blast
        qed
      next
        case False2: False
        with assms n call pr p False c show ?thesis by (auto simp: current_node_def)
      qed
    qed
  next
    case ncall: False
    show ?thesis
    proof (cases "type n = ''FunctionExpression'' \<and> id_of n = None")
      case True
      obtain a st2 where a: "addNameToFE h n (parent_id_name st n) st = (a, st2)"
        by (cases "addNameToFE h n (parent_id_name st n) st")
      show ?thesis
      proof (cases a)
        case None
        with a addNameToFE_cases [of h n "parent_id_name st n" st]
        have "addNameToFE h n (parent_id_name st n) st = (None, st)" by auto
        with assms n ncall True show ?thesis by (simp add: current_node_def)
      next
        case (Some nf)
        from addNameToFE_Some [OF a [unfolded Some]] assms n ncall True a Some
        show ?thesis by (simp add: current_node_def)
      qed
    next
      case False
      with assms n ncall show ?thesis by (auto simp: current_node_def)
    qed
  qed
qed

lemma evolves_set_nodeId:
  assumes "nodes st r = Some p" "type p = ''ExpressionStatement''"
  shows "evolves st (set_nodeId r f st)"
  unfolding evolves_def
proof (intro conjI allI impI)
  fix a n assume n: "nodes (st) a = Some n"
  show "\<exists>i. nodes (set_nodeId r f st) a = Some (n\<lparr>nodeId := i\<rparr>)
            \<and> (type n \<noteq> ''ExpressionStatement'' \<longrightarrow> i = nodeId n)"
  proof (cases "a = r")
    case True
    with n assms have "nodes (set_nodeId r f st) a = Some (n\<lparr>nodeId := f (nodeId n)\<rparr>)"
      "type n = ''ExpressionStatement''" by (simp_all add: set_nodeId_def)
    then show ?thesis by blast
  next
    case False
    with n have "nodes (set_nodeId r f st) a = Some (n\<lparr>nodeId := nodeId n\<rparr>)"
      by (simp add: set_nodeId_def)
    then show ?thesis by blast
  qed
qed (auto simp: set_nodeId_def)

lemma heap_wf_set_nodeId: "heap_wf st \<Longrightarrow> heap_wf (set_nodeId r f st)"
  unfolding heap_wf_def set_nodeId_def parent_ref_def
  by (auto split: if_splits)

lemma evolves_alloc:
  assumes "heap_wf st" "nodes st' = (nodes st)(fresh st \<mapsto> x)" "fresh st' = Suc (fresh st)"
  shows "evolves st st'"
  unfolding evolves_def
proof (intro conjI allI impI)
  fix a n assume a: "a < fresh st" and n: "nodes st a = Some n"
  with assms(2) have "nodes st' a = Some (n\<lparr>nodeId := nodeId n\<rparr>)" by simp
  then show "\<exists>i. nodes st' a = Some (n\<lparr>nodeId := i\<rparr>)
            \<and> (type n \<noteq> ''ExpressionStatement'' \<longrightarrow> i = nodeId n)" by blast
qed (use assms in auto)

lemma heap_wf_alloc:
  assumes "heap_wf st" "nodes st' = (nodes st)(fresh st \<mapsto> x)" "fresh st' = Suc (fresh st)"
    "parent x = None" "id_of x = None" "callee x = None"
  shows "heap_wf st'"
  using assms unfolding heap_wf_def parent_ref_def
  by (auto simp: less_Suc_eq split: if_splits)

lemma current_node_step:
  assumes wf: "heap_wf st" and cn: "current_node h po r st = Value (r', st')"
  shows "heap_wf st' \<and> evolves st st' \<and> settled h po st' r'"
proof -
  from current_node_result [OF cn]
  consider (same) "r' = r" "st' = st"
    | (statement) p where "nodes st r' = Some p" "type p = ''ExpressionStatement''"
        "st' = st \<or> (\<exists>f. st' = set_nodeId r' f st)"
    | (new) x where "r' = fresh st" "fresh st' = Suc (fresh st)"
        "nodes st' = (nodes st)(fresh st \<mapsto> x)" "type x = ''Program''"
        "parent x = None" "id_of x = None" "callee x = None"
    by blast
  then show ?thesis
  proof cases
    case same
    with wf cn show ?thesis by (simp add: evolves_refl settled_def)
  next
    case (statement p)
    from statement(3) show ?thesis
    proof
      assume "st' = st"
      with wf statement show ?thesis by (simp add: evolves_refl settled_other)
    next
      assume "\<exists>f. st' = set_nodeId r' f st"
      then obtain f where f: "st' = set_nodeId r' f st" ..
      with statement have "nodes st' r' = Some (p\<lparr>nodeId := f (nodeId p)\<rparr>)"
        by (simp add: set_nodeId_def)
      with statement(2) have "settled h po st' r'" by (intro settled_other) auto
      with f wf statement show ?thesis by (simp add: evolves_set_nodeId heap_wf_set_nodeId)
    qed
  next
    case (new x)
    from new(1,3) have "nodes st' r' = Some x" by simp
    with new(4) have "settled h po st' r'" by (intro settled_other) auto
    with evolves_alloc [OF wf new(3) new(2)] heap_wf_alloc [OF wf new(3) new(2) new(5-7)]
    show ?thesis by simp
  qed
qed

lemma first_loop_result:
  assumes "heap_wf st" "first_loop h po rs pn st = Value (rs', pn', st')"
  shows "heap_wf st' \<and> evolves st st' \<and> (\<forall>r' \<in> set rs'. settled h po st' r')
         \<and> pn' = add_all pn rs'"
  using assms
proof (induction rs arbitrary: pn st rs' pn' st')
  case Nil
  then show ?case by (simp add: evolves_refl add_all_def)
next
  case (Cons r rs)
  from Cons.prems(2) obtain c st1 where c: "current_node h po r st = Value (c, st1)"
    by (auto simp: and_then_Value)
  let ?pn = "if c \<in> set pn then pn else pn @ [c]"
  from Cons.prems(2) c obtain cs where
    rest: "first_loop h po rs ?pn st1 = Value (cs, pn', st')" and rs': "rs' = c # cs"
    by (auto simp: and_then_Value)
  from current_node_step [OF Cons.prems(1) c]
  have 1: "heap_wf st1" "evolves st st1" "settled h po st1 c" by simp_all
  from Cons.IH [OF 1(1) rest]
  have 2: "heap_wf st'" "evolves st1 st'" "\<forall>r' \<in> set cs. settled h po st' r'"
    "pn' = add_all ?pn cs" by simp_all
  from settled_mono [OF 2(2) 1(1) 1(3)] have "settled h po st' c" .
  with 2 rs' evolves_trans [OF 1(2) 2(2)] show ?case by (simp add: add_all_def)
qed

lemma first_loop_settled:
  assumes "\<forall>r \<in> set rs. settled h po st r"
  shows "first_loop h po rs pn st = Value (rs, add_all pn rs, st)"
  using assms
proof (induction rs arbitrary: pn)
  case Nil
  then show ?case by (simp add: add_all_def)
next
  case (Cons r rs)
  then have r: "current_node h po r st = Value (r, st)" by (simp add: settled_def)
  from Cons have "first_loop h po rs (if r \<in> set pn then pn else pn @ [r]) st
                  = Value (rs, add_all (if r \<in> set pn then pn else pn @ [r]) rs, st)"
    by simp
  with r show ?case by (simp add: add_all_def)
qed

text \<open>
  Where a repeated call does return the same text. When a call has returned, a second
  call with the same \<open>preserveOrder\<close> on the same array object, as the first call left
  it, returns the same text and changes neither the array nor the store (the store is
  well formed).
\<close>

lemma createOrderedSrc_same_array_again:
  assumes wf: "heap_wf st"
    and first: "createOrderedSrc h preserveOrder nodes_arg st = Value (output, nodes', st')"
  shows "createOrderedSrc h preserveOrder nodes' st' = Value (output, nodes', st')"
proof -
  from first obtain pn where
    l1: "first_loop h preserveOrder nodes_arg [] st = Value (nodes', pn, st')"
    and l2: "second_loop st' (sort_key (nodeId_at st') pn) = Value output"
    by (auto simp: createOrderedSrc_def and_then_Value)
  from first_loop_result [OF wf l1]
  have s: "\<forall>r' \<in> set nodes'. settled h preserveOrder st' r'" and pn: "pn = add_all [] nodes'"
    by simp_all
  from first_loop_settled [OF s, of "[]"] pn
  have "first_loop h preserveOrder nodes' [] st' = Value (nodes', pn, st')" by simp
  with l2 show ?thesis by (simp add: createOrderedSrc_def)
qed

lemma heap_wf_iife_heap: "heap_wf iife_heap"
  by (simp add: heap_wf_def iife_heap_def obj_def parsed_program_def parent_ref_def
      split: if_splits)

lemma first_call:
  "createOrderedSrc parsing_host False [2, 7] iife_heap
   = Value (''(function(){})();'' @ [nl] @ ''(function func7(a){}());'' @ [nl], [1, 11],
            iife_heap_after)"
  unfolding iife_heap_after_def
  by (simp add: ordered_defs)

lemma createOrderedSrc_same_array_again_example:
  "heap_wf iife_heap
   \<and> createOrderedSrc parsing_host False [2, 7] iife_heap
       = Value (''(function(){})();'' @ [nl] @ ''(function func7(a){}());'' @ [nl], [1, 11],
                iife_heap_after)
   \<and> createOrderedSrc parsing_host False [1, 11] iife_heap_after
       = Value (''(function(){})();'' @ [nl] @ ''(function func7(a){}());'' @ [nl], [1, 11],
                iife_heap_after)"
proof -
  note again = createOrderedSrc_same_array_again [OF heap_wf_iife_heap first_call]
  show ?thesis by (intro conjI heap_wf_iife_heap first_call again)
qed

text \<open>
  A call with \<open>preserveOrder = true\<close> writes to no node that exists: it only creates
  the named copies of anonymous functions. The assignment to \<open>nodeId\<close> of a node of the
  tree is made under \<open>!preserveOrder\<close> alone.
\<close>

lemma addNameToFE_keeps:
  assumes "addNameToFE h n nm st = (res, st')"
  shows "fresh st \<le> fresh st' \<and> (\<forall>a < fresh st. nodes st' a = nodes st a)"
  using assms by (auto simp: addNameToFE_def Let_def split: parse_outcome.splits)

lemma current_node_preserveOrder:
  assumes "current_node h True r st = Value (c, st')"
  shows "fresh st \<le> fresh st' \<and> (\<forall>a < fresh st. nodes st' a = nodes st a)"
proof -
  from assms obtain n where n: "nodes st r = Some n"
    by (auto simp: current_node_def and_then_Value non_null_Value)
  consider (call) "type n = ''CallExpression''"
    | (fe) "type n \<noteq> ''CallExpression''" "type n = ''FunctionExpression'' \<and> id_of n = None"
    | (other) "type n \<noteq> ''CallExpression''" "\<not> (type n = ''FunctionExpression'' \<and> id_of n = None)"
    by blast
  then show ?thesis
  proof cases
    case call
    with assms n have "st' = st"
      by (auto simp: current_node_def and_then_Value non_null_Value split: if_splits)
    then show ?thesis by simp
  next
    case fe
    with assms n obtain res where "addNameToFE h n (parent_id_name st n) st = (res, st')"
      by (auto simp: current_node_def split: prod.splits option.splits)
    then show ?thesis by (rule addNameToFE_keeps)
  next
    case other
    with assms n have "st' = st" by (auto simp: current_node_def)
    then show ?thesis by simp
  qed
qed

lemma first_loop_preserveOrder:
  assumes "first_loop h True rs pn st = Value (rs', pn', st')"
  shows "fresh st \<le> fresh st' \<and> (\<forall>a < fresh st. nodes st' a = nodes st a)"
  using assms
proof (induction rs arbitrary: pn st rs' pn')
  case Nil
  then show ?case by simp
next
  case (Cons r rs)
  from Cons.prems obtain c st1 rs1 where
    1: "current_node h True r st = Value (c, st1)"
    and 2: "first_loop h True rs (if c \<in> set pn then pn else pn @ [c]) st1 = Value (rs1, pn', st')"
    by (auto simp: and_then_Value)
  from current_node_preserveOrder [OF 1] Cons.IH [OF 2]
  show ?case by auto
qed

lemma createOrderedSrc_preserveOrder:
  assumes "createOrderedSrc h True nodes_arg st = Value (output, nodes', st')"
  shows "\<forall>a < fresh st. nodes st' a = nodes st a"
proof -
  from assms obtain pn where "first_loop h True nodes_arg [] st = Value (nodes', pn, st')"
    by (auto simp: createOrderedSrc_def and_then_Value)
  from first_loop_preserveOrder [OF this] show ?thesis by simp
qed

text \<open>
  An IIFE statement with an argument dependency is given the \<open>nodeId\<close> after that of
  the declaration, the same in every call; and with \<open>preserveOrder = true\<close> the store
  is left as it is.
\<close>

lemma createOrderedSrc_argument_example:
  "result_text (createOrderedSrc parsing_host False [6, 2] arg_heap)
     = Some (''const x = 1;'' @ [nl] @ ''(function(a){return a;})(x);'' @ [nl])
   \<and> nodeId_at arg_heap_after 5 = 4
   \<and> result_text (createOrderedSrc parsing_host False [6, 2] arg_heap_after)
     = Some (''const x = 1;'' @ [nl] @ ''(function(a){return a;})(x);'' @ [nl])"
  unfolding arg_heap_after_def
  by (simp add: ordered_defs arg_heap_def)

lemma createOrderedSrc_preserveOrder_example:
  "createOrderedSrc parsing_host True [2, 7] iife_heap
     = Value (''(function(){})();'' @ [nl] @ ''function(a){}()'' @ [nl], [1, 7], iife_heap)"
  by (simp add: ordered_defs)

text \<open>
  C5 at the two calls of \<open>(function(){})(); !function(a){}();\<close> with
  \<open>preserveOrder = false\<close>, each call of \<open>createOrderedSrc\<close> on an array of these two
  nodes. The first call adds \<open>LARGE_NUMBER\<close> to the \<open>nodeId\<close> of the first statement, a
  node of the tree, and puts it before the newly named function, whose \<open>nodeId\<close> is
  that of the call expression 7 plus \<open>LARGE_NUMBER\<close>. The second call adds
  \<open>LARGE_NUMBER\<close> to the statement once more and puts it behind the function: the text
  differs from the first, and the two statements are no longer in the order of the
  source.
\<close>

theorem createOrderedSrc_repeated_call_differs:
  "result_text (createOrderedSrc parsing_host False [2, 7] iife_heap)
     = Some (''(function(){})();'' @ [nl] @ ''(function func7(a){}());'' @ [nl])
   \<and> result_text (createOrderedSrc parsing_host False [2, 7] iife_heap_after)
     = Some (''(function func7(a){}());'' @ [nl] @ ''(function(){})();'' @ [nl])"
  unfolding iife_heap_after_def
  by (simp add: ordered_defs)

end
